theory Spec2Isabelle
  imports Complex_Main "HOL-Library.Multiset"
begin

section \<open>The binary heap behind the priority strategy\<close>

text \<open>
  \<open>PriorityQueue._put\<close> and \<open>PriorityQueue._get\<close> call \<open>heappush\<close> and \<open>heappop\<close> of
  the standard library's \<open>heapq\<close>, which is no part of the repository. The two are
  written here as the library's array algorithm: a list used as an implicit binary tree,
  the parent of index \<open>pos\<close> at \<open>(pos - 1) >> 1\<close>, the children of \<open>pos\<close> at
  \<open>2 * pos + 1\<close> and \<open>2 * pos + 2\<close>, and only the comparison \<open><\<close> of the items used,
  which is taken to be a linear order.

  \<open>siftdown_loop\<close> is the loop of \<open>_siftdown(heap, startpos, pos)\<close>: the new item is
  carried in a variable and the parents it is smaller than move down one level each.
\<close>

function siftdown_loop :: "'a::linorder list \<Rightarrow> nat \<Rightarrow> nat \<Rightarrow> 'a \<Rightarrow> 'a list" where
  "siftdown_loop heap startpos pos newitem =
     (if pos > startpos then
        (let parentpos = (pos - 1) div 2;
             parent = heap ! parentpos
         in if newitem < parent
            then siftdown_loop (heap[pos := parent]) startpos parentpos newitem
            else heap[pos := newitem])
      else heap[pos := newitem])"
  by pat_completeness auto
termination
  by (relation "measure (\<lambda>(heap, startpos, pos, newitem). pos)") auto

declare siftdown_loop.simps [simp del]

definition siftdown :: "'a::linorder list \<Rightarrow> nat \<Rightarrow> nat \<Rightarrow> 'a list" where
  "siftdown heap startpos pos = siftdown_loop heap startpos pos (heap ! pos)"

text \<open>\<open>heappush\<close>: append the item, then let it climb from the last position.\<close>

definition heappush :: "'a::linorder list \<Rightarrow> 'a \<Rightarrow> 'a list" where
  "heappush heap item = siftdown (heap @ [item]) 0 (length heap)"

text \<open>
  \<open>siftup_loop\<close> is the loop of \<open>_siftup(heap, pos)\<close>: the smaller child moves up into the
  hole until the hole is a leaf; the result is the list and the position of that leaf.
\<close>

function siftup_loop :: "'a::linorder list \<Rightarrow> nat \<Rightarrow> 'a list \<times> nat" where
  "siftup_loop heap pos =
     (let endpos = length heap;
          childpos = 2 * pos + 1
      in if childpos < endpos then
           (let rightpos = childpos + 1;
                childpos' = (if rightpos < endpos \<and> \<not> heap ! childpos < heap ! rightpos
                             then rightpos else childpos)
            in siftup_loop (heap[pos := heap ! childpos']) childpos')
         else (heap, pos))"
  by pat_completeness auto
termination
  by (relation "measure (\<lambda>(heap, pos). length heap - pos)") (auto simp: Let_def)

declare siftup_loop.simps [simp del]

definition siftup :: "'a::linorder list \<Rightarrow> nat \<Rightarrow> 'a list" where
  "siftup heap pos =
     (let newitem = heap ! pos;
          (heap', pos') = siftup_loop heap pos
      in siftdown (heap'[pos' := newitem]) pos pos')"

section \<open>Errors, effects and outcomes\<close>

text \<open>
  The exceptions of the source. \<open>ClosedQueue\<close>, \<open>WrongScheduler\<close>, \<open>NoRunningLoop\<close> and
  \<open>ShutdownOrderingError\<close> are the four \<open>RuntimeError\<close>s (closed queue, queue bound to
  a different event loop, \<open>asyncio.get_running_loop()\<close> without a running loop, and
  \<open>wait_closed\<close> before \<open>close\<close>); \<open>TooManyCompletions\<close> and \<open>InvalidTimeout\<close> are the
  two \<open>ValueError\<close>s of the facades, \<open>NotInPending\<close> the one of \<open>deque.remove\<close>; the
  full and empty errors keep the facade they belong to. \<open>OverflowError\<close> is what
  \<open>Condition.wait\<close> raises for a timeout above \<open>threading.TIMEOUT_MAX\<close>.
\<close>

datatype error =
    ClosedQueue
  | WrongScheduler
  | NoRunningLoop
  | ShutdownOrderingError
  | TooManyCompletions
  | InvalidTimeout
  | SyncQueueFull
  | SyncQueueEmpty
  | AsyncQueueFull
  | AsyncQueueEmpty
  | CancelledError
  | AssertionError
  | IndexError
  | NotInPending
  | OverflowError

text \<open>\<open>heappop\<close>: the last item replaces the root and sinks; an empty list raises.\<close>

definition heappop :: "'a::linorder list \<Rightarrow> error + ('a \<times> 'a list)" where
  "heappop heap =
     (if heap = [] then Inl IndexError
      else
        (let lastelt = last heap;
             heap1 = butlast heap
         in if heap1 \<noteq> [] then
              (let returnitem = heap1 ! 0
               in Inr (returnitem, siftup (heap1[0 := lastelt]) 0))
            else Inr (lastelt, heap1)))"

text \<open>
  What an operation does to the world outside the queue object: a \<open>notify\<close> or
  \<open>notify_all\<close> on one of the five condition variables, or a callback handed to the
  event loop with \<open>call_soon_threadsafe\<close>.
\<close>

datatype cond = SyncNotEmpty | SyncNotFull | AsyncNotEmpty | AsyncNotFull | AllTasksDone

datatype callback = MakeAsyncNotEmptyNotifier | MakeAsyncNotFullNotifier | FinishedSet

datatype effect = Notify cond | NotifyAll cond | CallSoonThreadsafe callback

text \<open>
  A call returns, raises, or reaches a wait (\<open>Condition.wait\<close>, \<open>Event.wait\<close>,
  \<open>asyncio.sleep\<close>) and releases the mutex there: \<open>Blocked\<close>. The code that runs when
  the wait is over is a function of its own below (\<open>..._wake\<close>), so that other calls may
  run in between. Each such function is one step: the closing check, which the source
  makes just before it takes the mutex, and the waiter count, which the suspending facade
  updates just outside the mutex around its wait, belong to the step they adjoin.
\<close>

datatype 'r outcome = Returned 'r | Raised error | Blocked

section \<open>The shared queue object\<close>

datatype strategy = Fifo | Prio | Lifo

datatype notifier =
    SyncNotEmptyNotifier | SyncNotFullNotifier | AsyncNotEmptyNotifier | AsyncNotFullNotifier

text \<open>
  An entry of \<open>_pending\<close>: the executor future or task of one notification job, with
  the notifier it runs and whether \<open>cancel()\<close> has been called on it.
\<close>

record future =
  notifier :: notifier
  cancelled :: bool

text \<open>
  The fields of \<open>Queue\<close>. \<open>strategy\<close> is the class (\<open>Queue\<close>, \<open>PriorityQueue\<close>,
  \<open>LifoQueue\<close>); \<open>items\<close> is \<open>_queue\<close>, or \<open>_heap_queue\<close> for the priority queue;
  \<open>finished\<close> is whether the event \<open>_finished\<close> is set; \<open>loop\<close> is the identity of
  the bound event loop.
\<close>

record 'a queue =
  loop :: "nat option"
  maxsize :: int
  strategy :: strategy
  items :: "'a list"
  unfinished_tasks :: int
  sync_not_empty_waiting :: int
  sync_not_full_waiting :: int
  async_not_empty_waiting :: int
  async_not_full_waiting :: int
  finished :: bool
  closing :: bool
  pending :: "future list"

type_synonym ('r, 'a) result = "'r outcome \<times> effect list \<times> 'a queue"

text \<open>
  \<open>__init__\<close>. \<open>running\<close> is the loop captured by the constructor on Python before
  3.10, and \<open>None\<close> from 3.10 on, where the loop is bound on first use.
\<close>

definition init :: "strategy \<Rightarrow> int \<Rightarrow> nat option \<Rightarrow> 'a queue" where
  "init k m running =
     \<lparr> loop = running, maxsize = m, strategy = k, items = [],
       unfinished_tasks = 0,
       sync_not_empty_waiting = 0, sync_not_full_waiting = 0,
       async_not_empty_waiting = 0, async_not_full_waiting = 0,
       finished = True, closing = False, pending = [] \<rparr>"

text \<open>
  \<open>_call_soon_threadsafe\<close>: nothing happens without a bound loop, and the
  \<open>RuntimeError\<close> of a loop that no longer takes callbacks is swallowed; \<open>accepted\<close>
  is whether \<open>loop.call_soon_threadsafe\<close> took the callback.
\<close>

definition call_soon_threadsafe :: "'a queue \<Rightarrow> callback \<Rightarrow> bool \<Rightarrow> effect list" where
  "call_soon_threadsafe q cb accepted =
     (if loop q = None then []
      else if accepted then [CallSoonThreadsafe cb] else [])"

text \<open>
  \<open>_get_loop\<close>: \<open>running\<close> is what \<open>asyncio.get_running_loop()\<close> finds. The first call
  binds the queue to it; an error leaves the queue as it was.
\<close>

definition get_loop :: "'a queue \<Rightarrow> nat option \<Rightarrow> error + (nat \<times> 'a queue)" where
  "get_loop q running =
     (case running of
        None \<Rightarrow> Inl NoRunningLoop
      | Some l \<Rightarrow>
          (let q1 = (if loop q = None then q\<lparr>loop := Some l\<rparr> else q)
           in if Some l \<noteq> loop q1 then Inl WrongScheduler else Inr (l, q1)))"

definition qsize :: "'a queue \<Rightarrow> int" where
  "qsize q = int (length (items q))"

text \<open>\<open>_put\<close> and \<open>_get\<close> of the three classes.\<close>

definition q_put :: "'a::linorder queue \<Rightarrow> 'a \<Rightarrow> 'a queue" where
  "q_put q item =
     (case strategy q of
        Fifo \<Rightarrow> q\<lparr>items := items q @ [item]\<rparr>
      | Prio \<Rightarrow> q\<lparr>items := heappush (items q) item\<rparr>
      | Lifo \<Rightarrow> q\<lparr>items := items q @ [item]\<rparr>)"

definition q_get :: "'a::linorder queue \<Rightarrow> error + ('a \<times> 'a queue)" where
  "q_get q =
     (case strategy q of
        Fifo \<Rightarrow> (if items q = [] then Inl IndexError
                 else Inr (hd (items q), q\<lparr>items := tl (items q)\<rparr>))
      | Prio \<Rightarrow> (case heappop (items q) of
                   Inl e \<Rightarrow> Inl e
                 | Inr (item, heap) \<Rightarrow> Inr (item, q\<lparr>items := heap\<rparr>))
      | Lifo \<Rightarrow> (if items q = [] then Inl IndexError
                 else Inr (last (items q), q\<lparr>items := butlast (items q)\<rparr>)))"

definition put_internal :: "'a::linorder queue \<Rightarrow> 'a \<Rightarrow> 'a queue" where
  "put_internal q item =
     (q_put q item)\<lparr>unfinished_tasks := unfinished_tasks q + 1, finished := False\<rparr>"

text \<open>
  The four cross-domain notifications. A job for the thread side is an executor future
  appended to \<open>_pending\<close> at once; a job for the task side is a task appended to
  \<open>_pending\<close> by \<open>_make_async_..._notifier\<close>, which runs at once when called on the loop
  (\<open>threadsafe=False\<close>) and as a loop callback otherwise.
\<close>

definition notify_sync_not_empty :: "'a queue \<Rightarrow> 'a queue" where
  "notify_sync_not_empty q =
     q\<lparr>pending := pending q @ [\<lparr>notifier = SyncNotEmptyNotifier, cancelled = False\<rparr>]\<rparr>"

definition notify_sync_not_full :: "'a queue \<Rightarrow> 'a queue" where
  "notify_sync_not_full q =
     q\<lparr>pending := pending q @ [\<lparr>notifier = SyncNotFullNotifier, cancelled = False\<rparr>]\<rparr>"

definition make_async_not_empty_notifier :: "'a queue \<Rightarrow> error + 'a queue" where
  "make_async_not_empty_notifier q =
     (if loop q = None then Inl AssertionError
      else Inr (q\<lparr>pending := pending q @
                  [\<lparr>notifier = AsyncNotEmptyNotifier, cancelled = False\<rparr>]\<rparr>))"

definition make_async_not_full_notifier :: "'a queue \<Rightarrow> error + 'a queue" where
  "make_async_not_full_notifier q =
     (if loop q = None then Inl AssertionError
      else Inr (q\<lparr>pending := pending q @
                  [\<lparr>notifier = AsyncNotFullNotifier, cancelled = False\<rparr>]\<rparr>))"

definition notify_async_not_empty ::
  "'a queue \<Rightarrow> bool \<Rightarrow> bool \<Rightarrow> error + (effect list \<times> 'a queue)" where
  "notify_async_not_empty q threadsafe accepted =
     (if threadsafe
      then Inr (call_soon_threadsafe q MakeAsyncNotEmptyNotifier accepted, q)
      else (case make_async_not_empty_notifier q of
              Inl e \<Rightarrow> Inl e
            | Inr q1 \<Rightarrow> Inr ([], q1)))"

definition notify_async_not_full ::
  "'a queue \<Rightarrow> bool \<Rightarrow> bool \<Rightarrow> error + (effect list \<times> 'a queue)" where
  "notify_async_not_full q threadsafe accepted =
     (if threadsafe
      then Inr (call_soon_threadsafe q MakeAsyncNotFullNotifier accepted, q)
      else (case make_async_not_full_notifier q of
              Inl e \<Rightarrow> Inl e
            | Inr q1 \<Rightarrow> Inr ([], q1)))"

section \<open>Lifecycle\<close>

text \<open>
  \<open>close\<close>: the flag, \<open>cancel()\<close> on every pending job, the finished event, and
  \<open>notify_all\<close> for the threads in \<open>join\<close>.
\<close>

definition close :: "'a queue \<Rightarrow> (unit, 'a) result" where
  "close q =
     (Returned (), [NotifyAll AllTasksDone],
      q\<lparr>closing := True,
        pending := map (\<lambda>fut. fut\<lparr>cancelled := True\<rparr>) (pending q),
        finished := True\<rparr>)"

text \<open>
  \<open>wait_closed\<close> up to \<open>asyncio.sleep(0)\<close>, where it always yields; then from there to
  \<open>asyncio.wait\<close>; then after that wait.
\<close>

definition wait_closed :: "'a queue \<Rightarrow> (unit, 'a) result" where
  "wait_closed q =
     (if \<not> closing q then (Raised ShutdownOrderingError, [], q) else (Blocked, [], q))"

definition wait_closed_wake :: "'a queue \<Rightarrow> (unit, 'a) result" where
  "wait_closed_wake q = (if pending q = [] then (Returned (), [], q) else (Blocked, [], q))"

definition wait_closed_done :: "'a queue \<Rightarrow> (unit, 'a) result" where
  "wait_closed_done q = (Returned (), [], q)"

definition aclose :: "'a queue \<Rightarrow> (unit, 'a) result" where
  "aclose q =
     (case close q of
        (Returned u, effs, q1) \<Rightarrow>
          (case wait_closed q1 of (out, effs', q2) \<Rightarrow> (out, effs @ effs', q2))
      | r \<Rightarrow> r)"

definition closed :: "'a queue \<Rightarrow> bool" where
  "closed q = (closing q \<and> pending q = [])"

definition check_closing :: "'a queue \<Rightarrow> error option" where
  "check_closing q = (if closing q then Some ClosedQueue else None)"

section \<open>The blocking facade\<close>

text \<open>
  The arguments \<open>t0\<close> and \<open>now\<close> are readings of \<open>monotonic()\<close>: \<open>t0\<close> the one that
  fixes the deadline \<open>endtime\<close>, \<open>now\<close> the one taken in the loop. Time is a real number
  here; only sums, differences and comparisons are taken of it. \<open>tmax\<close> is the constant
  \<open>threading.TIMEOUT_MAX\<close> of the platform: \<open>wait(remaining)\<close> with \<open>remaining\<close>
  above it raises \<open>OverflowError\<close> at once, and the \<open>finally\<close> clause takes the waiter
  count back. \<open>accepted\<close> is passed on to \<open>call_soon_threadsafe\<close>.
\<close>

definition sync_task_done :: "'a queue \<Rightarrow> bool \<Rightarrow> (unit, 'a) result" where
  "sync_task_done q accepted =
     (case check_closing q of
        Some e \<Rightarrow> (Raised e, [], q)
      | None \<Rightarrow>
          (let unfinished = unfinished_tasks q - 1
           in if unfinished \<le> 0 then
                (if unfinished < 0 then (Raised TooManyCompletions, [], q)
                 else (Returned (),
                       [NotifyAll AllTasksDone] @ call_soon_threadsafe q FinishedSet accepted,
                       q\<lparr>unfinished_tasks := unfinished\<rparr>))
              else (Returned (), [], q\<lparr>unfinished_tasks := unfinished\<rparr>)))"

text \<open>\<open>join\<close>: the head of its loop, the call, and the code after \<open>wait()\<close>.\<close>

definition sync_join_wait :: "'a queue \<Rightarrow> (unit, 'a) result" where
  "sync_join_wait q =
     (if unfinished_tasks q \<noteq> 0 then (Blocked, [], q) else (Returned (), [], q))"

definition sync_join :: "'a queue \<Rightarrow> (unit, 'a) result" where
  "sync_join q =
     (case check_closing q of
        Some e \<Rightarrow> (Raised e, [], q)
      | None \<Rightarrow> sync_join_wait q)"

definition sync_join_wake :: "'a queue \<Rightarrow> (unit, 'a) result" where
  "sync_join_wake q =
     (case check_closing q of
        Some e \<Rightarrow> (Raised e, [], q)
      | None \<Rightarrow> sync_join_wait q)"

definition sync_qsize :: "'a queue \<Rightarrow> int" where
  "sync_qsize q = qsize q"

definition sync_unfinished_tasks :: "'a queue \<Rightarrow> int" where
  "sync_unfinished_tasks q = unfinished_tasks q"

definition sync_maxsize :: "'a queue \<Rightarrow> int" where
  "sync_maxsize q = maxsize q"

definition sync_closed :: "'a queue \<Rightarrow> bool" where
  "sync_closed q = closed q"

definition sync_empty :: "'a queue \<Rightarrow> bool" where
  "sync_empty q = (\<not> (qsize q \<noteq> 0))"

definition sync_full :: "'a queue \<Rightarrow> bool" where
  "sync_full q = (0 < maxsize q \<and> maxsize q \<le> qsize q)"

text \<open>
  The end of \<open>put\<close>, from \<open>_put_internal\<close> on: the commit and the two notifications.
\<close>

definition sync_put_commit :: "'a::linorder queue \<Rightarrow> 'a \<Rightarrow> bool \<Rightarrow> (unit, 'a) result" where
  "sync_put_commit q item accepted =
     (let q1 = put_internal q item;
          effs1 = (if sync_not_empty_waiting q1 \<noteq> 0 then [Notify SyncNotEmpty] else [])
      in if async_not_empty_waiting q1 \<noteq> 0 then
           (case notify_async_not_empty q1 True accepted of
              Inl e \<Rightarrow> (Raised e, effs1, q1)
            | Inr (effs2, q2) \<Rightarrow> (Returned (), effs1 @ effs2, q2))
         else (Returned (), effs1, q1))"

text \<open>
  One evaluation of the head of the \<open>while\<close> loop of \<open>put\<close>, for a bounded queue in
  blocking mode: \<open>endtime = None\<close> is the loop without a timeout, \<open>Some e\<close> the loop with
  the deadline \<open>e\<close>. Reaching \<open>wait\<close> counts the thread as a waiter.
\<close>

definition sync_put_wait ::
  "'a::linorder queue \<Rightarrow> 'a \<Rightarrow> real option \<Rightarrow> real \<Rightarrow> real \<Rightarrow> bool
     \<Rightarrow> (unit, 'a) result" where
  "sync_put_wait q item endtime now tmax accepted =
     (if qsize q \<ge> maxsize q then
        (case endtime of
           None \<Rightarrow> (Blocked, [], q\<lparr>sync_not_full_waiting := sync_not_full_waiting q + 1\<rparr>)
         | Some e \<Rightarrow>
             (let remaining = e - now
              in if remaining \<le> 0 then (Raised SyncQueueFull, [], q)
                 else if remaining > tmax then (Raised OverflowError, [], q)
                 else (Blocked, [],
                       q\<lparr>sync_not_full_waiting := sync_not_full_waiting q + 1\<rparr>)))
      else sync_put_commit q item accepted)"

definition sync_put ::
  "'a::linorder queue \<Rightarrow> 'a \<Rightarrow> bool \<Rightarrow> real option \<Rightarrow> real \<Rightarrow> real \<Rightarrow> real \<Rightarrow> bool
     \<Rightarrow> (unit, 'a) result" where
  "sync_put q item block timeout t0 now tmax accepted =
     (case check_closing q of
        Some e \<Rightarrow> (Raised e, [], q)
      | None \<Rightarrow>
          (if maxsize q > 0 then
             (if \<not> block then
                (if qsize q \<ge> maxsize q then (Raised SyncQueueFull, [], q)
                 else sync_put_commit q item accepted)
              else
                (case timeout of
                   None \<Rightarrow> sync_put_wait q item None now tmax accepted
                 | Some t \<Rightarrow>
                     (if t < 0 then (Raised InvalidTimeout, [], q)
                      else (let endtime = t0 + t
                            in sync_put_wait q item (Some endtime) now tmax accepted))))
           else sync_put_commit q item accepted))"

text \<open>
  The thread is back from \<open>wait\<close> with the mutex held: the \<open>finally\<close> clause takes it
  out of the waiters and the loop head is evaluated again.
\<close>

definition sync_put_wake ::
  "'a::linorder queue \<Rightarrow> 'a \<Rightarrow> real option \<Rightarrow> real \<Rightarrow> real \<Rightarrow> bool
     \<Rightarrow> (unit, 'a) result" where
  "sync_put_wake q item endtime now tmax accepted =
     sync_put_wait (q\<lparr>sync_not_full_waiting := sync_not_full_waiting q - 1\<rparr>)
       item endtime now tmax accepted"

text \<open>
  \<open>put_nowait\<close> is \<open>put(item, block=False)\<close>; no clock is read on that path.
\<close>

definition sync_put_nowait :: "'a::linorder queue \<Rightarrow> 'a \<Rightarrow> bool \<Rightarrow> (unit, 'a) result" where
  "sync_put_nowait q item accepted = sync_put q item False None 0 0 0 accepted"

definition sync_get_commit :: "'a::linorder queue \<Rightarrow> bool \<Rightarrow> ('a, 'a) result" where
  "sync_get_commit q accepted =
     (case q_get q of
        Inl e \<Rightarrow> (Raised e, [], q)
      | Inr (item, q1) \<Rightarrow>
          (let effs1 = (if sync_not_full_waiting q1 \<noteq> 0 then [Notify SyncNotFull] else [])
           in if async_not_full_waiting q1 \<noteq> 0 then
                (case notify_async_not_full q1 True accepted of
                   Inl e \<Rightarrow> (Raised e, effs1, q1)
                 | Inr (effs2, q2) \<Rightarrow> (Returned item, effs1 @ effs2, q2))
              else (Returned item, effs1, q1)))"

definition sync_get_wait ::
  "'a::linorder queue \<Rightarrow> real option \<Rightarrow> real \<Rightarrow> real \<Rightarrow> bool \<Rightarrow> ('a, 'a) result" where
  "sync_get_wait q endtime now tmax accepted =
     (if \<not> (qsize q \<noteq> 0) then
        (case endtime of
           None \<Rightarrow> (Blocked, [], q\<lparr>sync_not_empty_waiting := sync_not_empty_waiting q + 1\<rparr>)
         | Some e \<Rightarrow>
             (let remaining = e - now
              in if remaining \<le> 0 then (Raised SyncQueueEmpty, [], q)
                 else if remaining > tmax then (Raised OverflowError, [], q)
                 else (Blocked, [],
                       q\<lparr>sync_not_empty_waiting := sync_not_empty_waiting q + 1\<rparr>)))
      else sync_get_commit q accepted)"

definition sync_get ::
  "'a::linorder queue \<Rightarrow> bool \<Rightarrow> real option \<Rightarrow> real \<Rightarrow> real \<Rightarrow> real \<Rightarrow> bool
     \<Rightarrow> ('a, 'a) result" where
  "sync_get q block timeout t0 now tmax accepted =
     (case check_closing q of
        Some e \<Rightarrow> (Raised e, [], q)
      | None \<Rightarrow>
          (if \<not> block then
             (if \<not> (qsize q \<noteq> 0) then (Raised SyncQueueEmpty, [], q)
              else sync_get_commit q accepted)
           else
             (case timeout of
                None \<Rightarrow> sync_get_wait q None now tmax accepted
              | Some t \<Rightarrow>
                  (if t < 0 then (Raised InvalidTimeout, [], q)
                   else (let endtime = t0 + t
                         in sync_get_wait q (Some endtime) now tmax accepted)))))"

definition sync_get_wake ::
  "'a::linorder queue \<Rightarrow> real option \<Rightarrow> real \<Rightarrow> real \<Rightarrow> bool \<Rightarrow> ('a, 'a) result" where
  "sync_get_wake q endtime now tmax accepted =
     sync_get_wait (q\<lparr>sync_not_empty_waiting := sync_not_empty_waiting q - 1\<rparr>)
       endtime now tmax accepted"

definition sync_get_nowait :: "'a::linorder queue \<Rightarrow> bool \<Rightarrow> ('a, 'a) result" where
  "sync_get_nowait q accepted = sync_get q False None 0 0 0 accepted"

text \<open>
  A whole \<open>put\<close> of a thread that no other call interferes with: every \<open>wait\<close> comes
  back, by its timeout or spuriously, and \<open>ts\<close> holds the clock readings of the loop
  heads evaluated after each. A thread still waiting when the readings are used up has
  not returned.
\<close>

fun sync_put_resume ::
  "'a::linorder queue \<Rightarrow> 'a \<Rightarrow> real option \<Rightarrow> real \<Rightarrow> real list \<Rightarrow> bool
     \<Rightarrow> (unit, 'a) result" where
  "sync_put_resume q item endtime tmax [] accepted = (Blocked, [], q)"
| "sync_put_resume q item endtime tmax (now # ts) accepted =
     (case sync_put_wake q item endtime now tmax accepted of
        (Blocked, effs, q1) \<Rightarrow> sync_put_resume q1 item endtime tmax ts accepted
      | r \<Rightarrow> r)"

definition sync_put_alone ::
  "'a::linorder queue \<Rightarrow> 'a \<Rightarrow> bool \<Rightarrow> real option \<Rightarrow> real \<Rightarrow> real \<Rightarrow> real \<Rightarrow> real list
     \<Rightarrow> bool \<Rightarrow> (unit, 'a) result" where
  "sync_put_alone q item block timeout t0 now tmax ts accepted =
     (case sync_put q item block timeout t0 now tmax accepted of
        (Blocked, effs, q1) \<Rightarrow>
          sync_put_resume q1 item (map_option (\<lambda>t. t0 + t) timeout) tmax ts accepted
      | r \<Rightarrow> r)"

section \<open>The suspending facade\<close>

text \<open>
  \<open>running\<close> is what \<open>asyncio.get_running_loop()\<close> finds where the call is made.
\<close>

definition async_closed :: "'a queue \<Rightarrow> bool" where
  "async_closed q = closed q"

definition async_qsize :: "'a queue \<Rightarrow> int" where
  "async_qsize q = qsize q"

definition async_unfinished_tasks :: "'a queue \<Rightarrow> int" where
  "async_unfinished_tasks q = unfinished_tasks q"

definition async_maxsize :: "'a queue \<Rightarrow> int" where
  "async_maxsize q = maxsize q"

definition async_empty :: "'a queue \<Rightarrow> bool" where
  "async_empty q = (async_qsize q = 0)"

definition async_full :: "'a queue \<Rightarrow> bool" where
  "async_full q = (if maxsize q \<le> 0 then False else qsize q \<ge> maxsize q)"

definition async_put_commit :: "'a::linorder queue \<Rightarrow> 'a \<Rightarrow> (unit, 'a) result" where
  "async_put_commit q item =
     (let q1 = put_internal q item;
          effs1 = (if async_not_empty_waiting q1 \<noteq> 0 then [Notify AsyncNotEmpty] else []);
          q2 = (if sync_not_empty_waiting q1 \<noteq> 0 then notify_sync_not_empty q1 else q1)
      in (Returned (), effs1, q2))"

text \<open>
  One turn of the \<open>while do_wait\<close> loop of the coroutine \<open>put\<close>, up to the \<open>await\<close>
  or out of the loop to the commit.
\<close>

definition async_put_wait :: "'a::linorder queue \<Rightarrow> 'a \<Rightarrow> (unit, 'a) result" where
  "async_put_wait q item =
     (let do_wait = (qsize q \<ge> maxsize q)
      in if do_wait
         then (Blocked, [], q\<lparr>async_not_full_waiting := async_not_full_waiting q + 1\<rparr>)
         else async_put_commit q item)"

definition async_put :: "'a::linorder queue \<Rightarrow> 'a \<Rightarrow> nat option \<Rightarrow> (unit, 'a) result" where
  "async_put q item running =
     (case check_closing q of
        Some e \<Rightarrow> (Raised e, [], q)
      | None \<Rightarrow>
          (case get_loop q running of
             Inl e \<Rightarrow> (Raised e, [], q)
           | Inr (l, q1) \<Rightarrow>
               (if maxsize q1 > 0 then async_put_wait q1 item
                else async_put_commit q1 item)))"

text \<open>
  The \<open>await\<close> is over: normally, and the loop goes round again; or by cancellation,
  and the \<open>finally\<close> clause alone runs before the error leaves the coroutine.
\<close>

definition async_put_wake :: "'a::linorder queue \<Rightarrow> 'a \<Rightarrow> (unit, 'a) result" where
  "async_put_wake q item =
     async_put_wait (q\<lparr>async_not_full_waiting := async_not_full_waiting q - 1\<rparr>) item"

definition async_put_cancel :: "'a queue \<Rightarrow> (unit, 'a) result" where
  "async_put_cancel q =
     (Raised CancelledError, [],
      q\<lparr>async_not_full_waiting := async_not_full_waiting q - 1\<rparr>)"

definition async_put_nowait ::
  "'a::linorder queue \<Rightarrow> 'a \<Rightarrow> nat option \<Rightarrow> (unit, 'a) result" where
  "async_put_nowait q item running =
     (case check_closing q of
        Some e \<Rightarrow> (Raised e, [], q)
      | None \<Rightarrow>
          (case get_loop q running of
             Inl e \<Rightarrow> (Raised e, [], q)
           | Inr (l, q1) \<Rightarrow>
               (if maxsize q1 > 0 \<and> qsize q1 \<ge> maxsize q1
                then (Raised AsyncQueueFull, [], q1)
                else
                  (let q2 = put_internal q1 item
                   in case (if async_not_empty_waiting q2 \<noteq> 0
                            then notify_async_not_empty q2 False True
                            else Inr ([], q2)) of
                        Inl e \<Rightarrow> (Raised e, [], q2)
                      | Inr (effs, q3) \<Rightarrow>
                          (let q4 = (if sync_not_empty_waiting q3 \<noteq> 0
                                     then notify_sync_not_empty q3 else q3)
                           in (Returned (), effs, q4))))))"

definition async_get_commit :: "'a::linorder queue \<Rightarrow> ('a, 'a) result" where
  "async_get_commit q =
     (case q_get q of
        Inl e \<Rightarrow> (Raised e, [], q)
      | Inr (item, q1) \<Rightarrow>
          (let effs1 = (if async_not_full_waiting q1 \<noteq> 0 then [Notify AsyncNotFull] else []);
               q2 = (if sync_not_full_waiting q1 \<noteq> 0 then notify_sync_not_full q1 else q1)
           in (Returned item, effs1, q2)))"

definition async_get_wait :: "'a::linorder queue \<Rightarrow> ('a, 'a) result" where
  "async_get_wait q =
     (let do_wait = (qsize q = 0)
      in if do_wait
         then (Blocked, [], q\<lparr>async_not_empty_waiting := async_not_empty_waiting q + 1\<rparr>)
         else async_get_commit q)"

definition async_get :: "'a::linorder queue \<Rightarrow> nat option \<Rightarrow> ('a, 'a) result" where
  "async_get q running =
     (case check_closing q of
        Some e \<Rightarrow> (Raised e, [], q)
      | None \<Rightarrow>
          (case get_loop q running of
             Inl e \<Rightarrow> (Raised e, [], q)
           | Inr (l, q1) \<Rightarrow> async_get_wait q1))"

definition async_get_wake :: "'a::linorder queue \<Rightarrow> ('a, 'a) result" where
  "async_get_wake q =
     async_get_wait (q\<lparr>async_not_empty_waiting := async_not_empty_waiting q - 1\<rparr>)"

definition async_get_cancel :: "'a queue \<Rightarrow> ('a, 'a) result" where
  "async_get_cancel q =
     (Raised CancelledError, [],
      q\<lparr>async_not_empty_waiting := async_not_empty_waiting q - 1\<rparr>)"

definition async_get_nowait :: "'a::linorder queue \<Rightarrow> nat option \<Rightarrow> ('a, 'a) result" where
  "async_get_nowait q running =
     (case check_closing q of
        Some e \<Rightarrow> (Raised e, [], q)
      | None \<Rightarrow>
          (if qsize q = 0 then (Raised AsyncQueueEmpty, [], q)
           else
             (case get_loop q running of
                Inl e \<Rightarrow> (Raised e, [], q)
              | Inr (l, q1) \<Rightarrow>
                  (case q_get q1 of
                     Inl e \<Rightarrow> (Raised e, [], q1)
                   | Inr (item, q2) \<Rightarrow>
                       (case (if async_not_full_waiting q2 \<noteq> 0
                              then notify_async_not_full q2 False True
                              else Inr ([], q2)) of
                          Inl e \<Rightarrow> (Raised e, [], q2)
                        | Inr (effs, q3) \<Rightarrow>
                            (let q4 = (if sync_not_full_waiting q3 \<noteq> 0
                                       then notify_sync_not_full q3 else q3)
                             in (Returned item, effs, q4)))))))"

definition async_task_done :: "'a queue \<Rightarrow> (unit, 'a) result" where
  "async_task_done q =
     (case check_closing q of
        Some e \<Rightarrow> (Raised e, [], q)
      | None \<Rightarrow>
          (if unfinished_tasks q \<le> 0 then (Raised TooManyCompletions, [], q)
           else
             (let q1 = q\<lparr>unfinished_tasks := unfinished_tasks q - 1\<rparr>
              in if unfinished_tasks q1 = 0
                 then (Returned (), [NotifyAll AllTasksDone], q1\<lparr>finished := True\<rparr>)
                 else (Returned (), [], q1))))"

text \<open>
  One turn of the loop of the coroutine \<open>join\<close>, up to \<open>await parent._finished.wait()\<close>;
  the turn after the wait is the same code.
\<close>

definition async_join :: "'a queue \<Rightarrow> (unit, 'a) result" where
  "async_join q =
     (case check_closing q of
        Some e \<Rightarrow> (Raised e, [], q)
      | None \<Rightarrow>
          (if unfinished_tasks q = 0 then (Returned (), [], q) else (Blocked, [], q)))"

section \<open>What the event loop and the executor run later\<close>

text \<open>
  A callback taken by \<open>call_soon_threadsafe\<close> runs on the loop; a notification job runs
  its notifier under the lock of its domain; a job that is done is taken out of
  \<open>_pending\<close> by its done-callback \<open>self._pending.remove\<close>, here the job at index \<open>i\<close>.
\<close>

definition run_callback :: "'a queue \<Rightarrow> callback \<Rightarrow> (unit, 'a) result" where
  "run_callback q cb =
     (case cb of
        MakeAsyncNotEmptyNotifier \<Rightarrow>
          (case make_async_not_empty_notifier q of
             Inl e \<Rightarrow> (Raised e, [], q)
           | Inr q1 \<Rightarrow> (Returned (), [], q1))
      | MakeAsyncNotFullNotifier \<Rightarrow>
          (case make_async_not_full_notifier q of
             Inl e \<Rightarrow> (Raised e, [], q)
           | Inr q1 \<Rightarrow> (Returned (), [], q1))
      | FinishedSet \<Rightarrow> (Returned (), [], q\<lparr>finished := True\<rparr>))"

definition run_notifier :: "'a queue \<Rightarrow> notifier \<Rightarrow> (unit, 'a) result" where
  "run_notifier q n =
     (case n of
        SyncNotEmptyNotifier \<Rightarrow> (Returned (), [Notify SyncNotEmpty], q)
      | SyncNotFullNotifier \<Rightarrow> (Returned (), [Notify SyncNotFull], q)
      | AsyncNotEmptyNotifier \<Rightarrow> (Returned (), [Notify AsyncNotEmpty], q)
      | AsyncNotFullNotifier \<Rightarrow> (Returned (), [Notify AsyncNotFull], q))"

definition future_done :: "'a queue \<Rightarrow> nat \<Rightarrow> (unit, 'a) result" where
  "future_done q i =
     (if i < length (pending q)
      then (Returned (), [], q\<lparr>pending := take i (pending q) @ drop (Suc i) (pending q)\<rparr>)
      else (Raised NotInPending, [], q))"

section \<open>Calls and runs\<close>

text \<open>
  Everything that can happen to a queue, one constructor for each piece of code that
  runs without giving up the mutex: the calls of the two facades with their arguments,
  the code after each wait, the lifecycle calls, and the deferred work of the loop and
  the executor.
\<close>

datatype 'a val = VNone | VItem 'a | VInt int | VBool bool

datatype 'a call =
    Close | WaitClosed | WaitClosedWake | WaitClosedDone | Aclose
  | QueueClosed | QueueMaxsize
  | SyncPut 'a bool "real option" real real real bool
  | SyncPutWake 'a "real option" real real bool
  | SyncPutNowait 'a bool
  | SyncGet bool "real option" real real real bool
  | SyncGetWake "real option" real real bool
  | SyncGetNowait bool
  | SyncTaskDone bool
  | SyncJoin | SyncJoinWake
  | SyncQsize | SyncEmpty | SyncFull | SyncMaxsize | SyncUnfinishedTasks | SyncClosed
  | AsyncPut 'a "nat option"
  | AsyncPutWake 'a
  | AsyncPutCancel
  | AsyncPutNowait 'a "nat option"
  | AsyncGet "nat option"
  | AsyncGetWake
  | AsyncGetCancel
  | AsyncGetNowait "nat option"
  | AsyncTaskDone
  | AsyncJoin
  | AsyncQsize | AsyncEmpty | AsyncFull | AsyncMaxsize | AsyncUnfinishedTasks | AsyncClosed
  | RunCallback callback
  | RunNotifier notifier
  | FutureDone nat

definition reply :: "('r \<Rightarrow> 'a val) \<Rightarrow> ('r, 'a) result \<Rightarrow> ('a val, 'a) result" where
  "reply f r = (case r of (out, effs, q) \<Rightarrow> (map_outcome f out, effs, q))"

definition answer :: "'a val \<Rightarrow> 'a queue \<Rightarrow> ('a val, 'a) result" where
  "answer v q = (Returned v, [], q)"

fun step :: "'a::linorder call \<Rightarrow> 'a queue \<Rightarrow> ('a val, 'a) result" where
  "step Close q = reply (\<lambda>u. VNone) (close q)"
| "step WaitClosed q = reply (\<lambda>u. VNone) (wait_closed q)"
| "step WaitClosedWake q = reply (\<lambda>u. VNone) (wait_closed_wake q)"
| "step WaitClosedDone q = reply (\<lambda>u. VNone) (wait_closed_done q)"
| "step Aclose q = reply (\<lambda>u. VNone) (aclose q)"
| "step QueueClosed q = answer (VBool (closed q)) q"
| "step QueueMaxsize q = answer (VInt (maxsize q)) q"
| "step (SyncPut item block timeout t0 now tmax accepted) q =
     reply (\<lambda>u. VNone) (sync_put q item block timeout t0 now tmax accepted)"
| "step (SyncPutWake item endtime now tmax accepted) q =
     reply (\<lambda>u. VNone) (sync_put_wake q item endtime now tmax accepted)"
| "step (SyncPutNowait item accepted) q = reply (\<lambda>u. VNone) (sync_put_nowait q item accepted)"
| "step (SyncGet block timeout t0 now tmax accepted) q =
     reply VItem (sync_get q block timeout t0 now tmax accepted)"
| "step (SyncGetWake endtime now tmax accepted) q = reply VItem (sync_get_wake q endtime now tmax accepted)"
| "step (SyncGetNowait accepted) q = reply VItem (sync_get_nowait q accepted)"
| "step (SyncTaskDone accepted) q = reply (\<lambda>u. VNone) (sync_task_done q accepted)"
| "step SyncJoin q = reply (\<lambda>u. VNone) (sync_join q)"
| "step SyncJoinWake q = reply (\<lambda>u. VNone) (sync_join_wake q)"
| "step SyncQsize q = answer (VInt (sync_qsize q)) q"
| "step SyncEmpty q = answer (VBool (sync_empty q)) q"
| "step SyncFull q = answer (VBool (sync_full q)) q"
| "step SyncMaxsize q = answer (VInt (sync_maxsize q)) q"
| "step SyncUnfinishedTasks q = answer (VInt (sync_unfinished_tasks q)) q"
| "step SyncClosed q = answer (VBool (sync_closed q)) q"
| "step (AsyncPut item running) q = reply (\<lambda>u. VNone) (async_put q item running)"
| "step (AsyncPutWake item) q = reply (\<lambda>u. VNone) (async_put_wake q item)"
| "step AsyncPutCancel q = reply (\<lambda>u. VNone) (async_put_cancel q)"
| "step (AsyncPutNowait item running) q = reply (\<lambda>u. VNone) (async_put_nowait q item running)"
| "step (AsyncGet running) q = reply VItem (async_get q running)"
| "step AsyncGetWake q = reply VItem (async_get_wake q)"
| "step AsyncGetCancel q = reply VItem (async_get_cancel q)"
| "step (AsyncGetNowait running) q = reply VItem (async_get_nowait q running)"
| "step AsyncTaskDone q = reply (\<lambda>u. VNone) (async_task_done q)"
| "step AsyncJoin q = reply (\<lambda>u. VNone) (async_join q)"
| "step AsyncQsize q = answer (VInt (async_qsize q)) q"
| "step AsyncEmpty q = answer (VBool (async_empty q)) q"
| "step AsyncFull q = answer (VBool (async_full q)) q"
| "step AsyncMaxsize q = answer (VInt (async_maxsize q)) q"
| "step AsyncUnfinishedTasks q = answer (VInt (async_unfinished_tasks q)) q"
| "step AsyncClosed q = answer (VBool (async_closed q)) q"
| "step (RunCallback cb) q = reply (\<lambda>u. VNone) (run_callback q cb)"
| "step (RunNotifier n) q = reply (\<lambda>u. VNone) (run_notifier q n)"
| "step (FutureDone i) q = reply (\<lambda>u. VNone) (future_done q i)"

text \<open>
  What the callers see of the buffer: a put that returned has inserted its item, a get
  that returned has removed the item it returned.
\<close>

datatype 'a event = Inserted 'a | Removed 'a

definition put_item :: "'a call \<Rightarrow> 'a option" where
  "put_item c =
     (case c of
        SyncPut item block timeout t0 now tmax accepted \<Rightarrow> Some item
      | SyncPutWake item endtime now tmax accepted \<Rightarrow> Some item
      | SyncPutNowait item accepted \<Rightarrow> Some item
      | AsyncPut item running \<Rightarrow> Some item
      | AsyncPutWake item \<Rightarrow> Some item
      | AsyncPutNowait item running \<Rightarrow> Some item
      | _ \<Rightarrow> None)"

definition is_get :: "'a call \<Rightarrow> bool" where
  "is_get c =
     (case c of
        SyncGet block timeout t0 now tmax accepted \<Rightarrow> True
      | SyncGetWake endtime now tmax accepted \<Rightarrow> True
      | SyncGetNowait accepted \<Rightarrow> True
      | AsyncGet running \<Rightarrow> True
      | AsyncGetWake \<Rightarrow> True
      | AsyncGetNowait running \<Rightarrow> True
      | _ \<Rightarrow> False)"

definition observe :: "'a call \<Rightarrow> 'a val outcome \<Rightarrow> 'a event list" where
  "observe c out =
     (case out of
        Returned v \<Rightarrow>
          (case put_item c of
             Some item \<Rightarrow> [Inserted item]
           | None \<Rightarrow> (case v of VItem item \<Rightarrow> if is_get c then [Removed item] else []
                       | _ \<Rightarrow> []))
      | _ \<Rightarrow> [])"

text \<open>
  A run: the calls are made one after the other, in the order in which they hold the
  mutex; the result is the history the callers saw and the queue at the end.
\<close>

fun run :: "'a::linorder call list \<Rightarrow> 'a queue \<Rightarrow> 'a event list \<times> 'a queue" where
  "run [] q = ([], q)"
| "run (c # cs) q =
     (case step c q of
        (out, effs, q1) \<Rightarrow> (case run cs q1 of (h, q2) \<Rightarrow> (observe c out @ h, q2)))"



section \<open>The three orders as the specification words them\<close>





section \<open>Classes of calls\<close>

text \<open>
  The operations of the two facades that begin with \<open>_check_closing\<close>, and the size and
  capacity queries, which do not.
\<close>

definition is_operation :: "'a call \<Rightarrow> bool" where
  "is_operation c =
     (case c of
        SyncPut item block timeout t0 now tmax accepted \<Rightarrow> True
      | SyncPutNowait item accepted \<Rightarrow> True
      | SyncGet block timeout t0 now tmax accepted \<Rightarrow> True
      | SyncGetNowait accepted \<Rightarrow> True
      | SyncTaskDone accepted \<Rightarrow> True
      | SyncJoin \<Rightarrow> True
      | AsyncPut item running \<Rightarrow> True
      | AsyncPutNowait item running \<Rightarrow> True
      | AsyncGet running \<Rightarrow> True
      | AsyncGetNowait running \<Rightarrow> True
      | AsyncTaskDone \<Rightarrow> True
      | AsyncJoin \<Rightarrow> True
      | _ \<Rightarrow> False)"

definition is_query :: "'a call \<Rightarrow> bool" where
  "is_query c =
     (case c of
        QueueClosed \<Rightarrow> True
      | QueueMaxsize \<Rightarrow> True
      | SyncQsize \<Rightarrow> True
      | SyncEmpty \<Rightarrow> True
      | SyncFull \<Rightarrow> True
      | SyncMaxsize \<Rightarrow> True
      | SyncUnfinishedTasks \<Rightarrow> True
      | SyncClosed \<Rightarrow> True
      | AsyncQsize \<Rightarrow> True
      | AsyncEmpty \<Rightarrow> True
      | AsyncFull \<Rightarrow> True
      | AsyncMaxsize \<Rightarrow> True
      | AsyncUnfinishedTasks \<Rightarrow> True
      | AsyncClosed \<Rightarrow> True
      | _ \<Rightarrow> False)"

definition is_shutdown :: "'a call \<Rightarrow> bool" where
  "is_shutdown c =
     (case c of
        Close \<Rightarrow> True
      | WaitClosed \<Rightarrow> True
      | Aclose \<Rightarrow> True
      | _ \<Rightarrow> False)"

section \<open>Invariants used in the proofs\<close>





text \<open>
  What one call can do to the buffer and the counters: nothing to the buffer (\<open>quiet\<close>),
  one insertion below capacity (\<open>commits_put\<close>), or one removal (\<open>commits_get\<close>);
  \<open>kind\<close> ties the three to what the caller sees.
\<close>

definition quiet :: "'a queue \<Rightarrow> 'a queue \<Rightarrow> bool" where
  "quiet q q1 \<longleftrightarrow>
     maxsize q1 = maxsize q \<and> strategy q1 = strategy q \<and> items q1 = items q \<and>
     (unfinished_tasks q1 = unfinished_tasks q \<or>
      unfinished_tasks q1 = unfinished_tasks q - 1 \<and> 0 \<le> unfinished_tasks q1) \<and>
     (closing q \<longrightarrow> closing q1)"

definition commits_put :: "'a::linorder queue \<Rightarrow> 'a \<Rightarrow> 'a queue \<Rightarrow> bool" where
  "commits_put q x q1 \<longleftrightarrow>
     maxsize q1 = maxsize q \<and> strategy q1 = strategy q \<and>
     \<not> (0 < maxsize q \<and> maxsize q \<le> qsize q) \<and>
     (\<exists>q0. items q0 = items q \<and> strategy q0 = strategy q \<and> items q1 = items (q_put q0 x)) \<and>
     unfinished_tasks q1 = unfinished_tasks q + 1 \<and> \<not> finished q1 \<and>
     closing q1 = closing q"

definition commits_get :: "'a::linorder queue \<Rightarrow> 'a \<Rightarrow> 'a queue \<Rightarrow> bool" where
  "commits_get q y q1 \<longleftrightarrow>
     maxsize q1 = maxsize q \<and> strategy q1 = strategy q \<and>
     (\<exists>q0 q'. items q0 = items q \<and> strategy q0 = strategy q \<and> q_get q0 = Inr (y, q') \<and>
        items q1 = items q') \<and>
     unfinished_tasks q1 = unfinished_tasks q \<and> finished q1 = finished q \<and>
     closing q1 = closing q"

definition kind :: "'a::linorder call \<Rightarrow> 'a queue \<Rightarrow> 'a val outcome \<Rightarrow> 'a queue \<Rightarrow> bool" where
  "kind c q out q1 \<longleftrightarrow>
     (observe c out = [] \<and> quiet q q1 \<and>
        (is_get c \<or> put_item c \<noteq> None \<longrightarrow> (\<forall>v. out \<noteq> Returned v))) \<or>
     (\<exists>x. observe c out = [Inserted x] \<and> put_item c = Some x \<and> out = Returned VNone \<and>
        commits_put q x q1) \<or>
     (\<exists>y. observe c out = [Removed y] \<and> is_get c \<and> out = Returned (VItem y) \<and>
        commits_get q y q1)"

text \<open>The capacity invariant of a bounded queue.\<close>

definition within_capacity :: "'a queue \<Rightarrow> bool" where
  "within_capacity q \<longleftrightarrow> (0 < maxsize q \<longrightarrow> qsize q \<le> maxsize q)"

section \<open>The heap operations keep the heap and its items\<close>

lemma length_siftdown_loop [simp]: "length (siftdown_loop h s p x) = length h"
  by (induction h s p x rule: siftdown_loop.induct)
     (subst siftdown_loop.simps, simp add: Let_def)

lemma length_siftup_loop [simp]: "length (fst (siftup_loop h p)) = length h"
  by (induction h p rule: siftup_loop.induct)
     (subst siftup_loop.simps, simp add: Let_def)

lemma mset_siftdown_loop:
  "p < length h \<Longrightarrow> mset (siftdown_loop h s p x) = mset (h[p := x])"
proof (induction h s p x rule: siftdown_loop.induct)
  case (1 heap startpos pos newitem)
  show ?case
  proof (cases "pos > startpos \<and> newitem < heap ! ((pos - 1) div 2)")
    case True
    let ?pp = "(pos - 1) div 2"
    from True "1.prems" have pp: "?pp < pos" "?pp < length heap" by auto
    have "siftdown_loop heap startpos pos newitem
          = siftdown_loop (heap[pos := heap ! ?pp]) startpos ?pp newitem"
      using True by (subst siftdown_loop.simps) (simp add: Let_def)
    also have "mset \<dots> = mset (heap[pos := heap ! ?pp, ?pp := newitem])"
      using True pp by (intro "1.IH") auto
    also have "\<dots> = mset (heap[pos := newitem])"
      using pp "1.prems" by (simp add: mset_update nth_list_update)
    finally show ?thesis .
  next
    case False
    then show ?thesis by (subst siftdown_loop.simps) (auto simp: Let_def)
  qed
qed





lemma mset_heappush: "mset (heappush h x) = add_mset x (mset h)"
  unfolding heappush_def siftdown_def by (simp add: mset_siftdown_loop)



lemma mset_swap_update:
  "i < length h \<Longrightarrow> j < length h \<Longrightarrow> mset (h[i := h ! j, j := x]) = mset (h[i := x])"
  by (cases "i = j") (simp_all add: mset_update nth_list_update)

lemma mset_siftup_loop:
  "p < length h \<Longrightarrow> siftup_loop h p = (h', p') \<Longrightarrow>
     p' < length h' \<and> mset (h'[p' := x]) = mset (h[p := x])"
proof (induction h p rule: siftup_loop.induct)
  case (1 heap pos)
  show ?case
  proof (cases "2 * pos + 1 < length heap")
    case True
    define k where "k = (if 2 * pos + 2 < length heap \<and> \<not> heap ! (2 * pos + 1) < heap ! (2 * pos + 2)
                 then 2 * pos + 2 else 2 * pos + 1)"
    have k: "k < length heap" using True by (simp add: k_def)
    have unf: "siftup_loop heap pos = siftup_loop (heap[pos := heap ! k]) k"
      using True by (subst siftup_loop.simps) (simp add: Let_def k_def)
    then have "siftup_loop (heap[pos := heap ! k]) k = (h', p')"
      using "1.prems"(2) by simp
    then have "p' < length h' \<and> mset (h'[p' := x]) = mset (heap[pos := heap ! k, k := x])"
      using True k by (intro "1.IH"[where x = "length heap" and xa = "2 * pos + 1" and xb = "2 * pos + 2" and xc = k])
        (auto simp: k_def)
    then show ?thesis using mset_swap_update[OF "1.prems"(1) k] by simp
  next
    case False
    then have "siftup_loop heap pos = (heap, pos)"
      by (subst siftup_loop.simps) (simp add: Let_def)
    then show ?thesis using "1.prems" by auto
  qed
qed

lemma mset_siftup: "p < length h \<Longrightarrow> mset (siftup h p) = mset h"
proof -
  assume p: "p < length h"
  obtain h' p' where l: "siftup_loop h p = (h', p')" by (cases "siftup_loop h p")
  from mset_siftup_loop[OF p l, of "h ! p"]
  have "p' < length h'" "mset (h'[p' := h ! p]) = mset h" by simp_all
  then show ?thesis
    by (simp add: siftup_def l siftdown_def mset_siftdown_loop Let_def)
qed




lemma heappop_empty: "heappop [] = Inl IndexError"
  by (simp add: heappop_def)

lemma heappop_nonempty:
  assumes "h \<noteq> []"
  obtains x h' where "heappop h = Inr (x, h')" "mset h = add_mset x (mset h')"
proof -
  let ?l = "last h" and ?b = "butlast h"
  have h: "h = ?b @ [?l]" using assms by simp
  show ?thesis
  proof (cases "?b = []")
    case True
    then have "heappop h = Inr (?l, [])" using assms by (simp add: heappop_def)
    moreover have "mset h = add_mset ?l (mset [])" using h True by (metis append_Nil mset.simps(2) mset_zero_iff_right)
    ultimately show ?thesis using that by blast
  next
    case False
    then have pop: "heappop h = Inr (?b ! 0, siftup (?b[0 := ?l]) 0)"
      using assms unfolding heappop_def Let_def by (simp only: if_False if_True not_False_eq_True)
    have len: "0 < length ?b" using False by (simp del: length_butlast)
    have "mset (siftup (?b[0 := ?l]) 0) = mset (?b[0 := ?l])"
      using len by (intro mset_siftup) (simp only: length_list_update)
    then have "add_mset (?b ! 0) (mset (siftup (?b[0 := ?l]) 0)) = add_mset ?l (mset ?b)"
      using len by (simp add: mset_update del: length_butlast)
    also have "\<dots> = mset h" by (subst (2) h) simp
    finally show ?thesis using that pop by metis
  qed
qed


section \<open>What each call does\<close>


lemma q_put_fields [simp]:
  "loop (q_put q x) = loop q" "maxsize (q_put q x) = maxsize q" "strategy (q_put q x) = strategy q"
  "unfinished_tasks (q_put q x) = unfinished_tasks q"
  "sync_not_empty_waiting (q_put q x) = sync_not_empty_waiting q"
  "sync_not_full_waiting (q_put q x) = sync_not_full_waiting q"
  "async_not_empty_waiting (q_put q x) = async_not_empty_waiting q"
  "async_not_full_waiting (q_put q x) = async_not_full_waiting q"
  "finished (q_put q x) = finished q" "closing (q_put q x) = closing q" "pending (q_put q x) = pending q"
  by (simp_all add: q_put_def split: strategy.splits)

lemma q_get_Inl: "q_get q = Inl e \<longleftrightarrow> items q = [] \<and> e = IndexError"
  by (auto simp: q_get_def heappop_def Let_def split: strategy.splits)


lemma q_get_total: "items q \<noteq> [] \<Longrightarrow> \<exists>y q'. q_get q = Inr (y, q')"
  by (cases "q_get q") (auto simp: q_get_Inl)

lemma notify_async_not_empty_threadsafe [simp]:
  "notify_async_not_empty q True accepted =
     Inr (call_soon_threadsafe q MakeAsyncNotEmptyNotifier accepted, q)"
  by (simp add: notify_async_not_empty_def)

lemma notify_async_not_full_threadsafe [simp]:
  "notify_async_not_full q True accepted =
     Inr (call_soon_threadsafe q MakeAsyncNotFullNotifier accepted, q)"
  by (simp add: notify_async_not_full_def)

lemma sync_put_commit_eq:
  "sync_put_commit q item accepted =
     (Returned (),
      (if sync_not_empty_waiting q \<noteq> 0 then [Notify SyncNotEmpty] else []) @
      (if async_not_empty_waiting q \<noteq> 0
       then call_soon_threadsafe q MakeAsyncNotEmptyNotifier accepted else []),
      put_internal q item)"
  by (simp add: sync_put_commit_def Let_def put_internal_def call_soon_threadsafe_def)

lemma q_get_frame:
  assumes "q_get q = Inr (y, q')"
  shows "loop q' = loop q" "maxsize q' = maxsize q" "strategy q' = strategy q"
    "unfinished_tasks q' = unfinished_tasks q"
    "sync_not_empty_waiting q' = sync_not_empty_waiting q"
    "sync_not_full_waiting q' = sync_not_full_waiting q"
    "async_not_empty_waiting q' = async_not_empty_waiting q"
    "async_not_full_waiting q' = async_not_full_waiting q"
    "finished q' = finished q" "closing q' = closing q" "pending q' = pending q"
  using assms by (auto simp: q_get_def split: strategy.splits if_splits sum.splits)

lemma sync_get_commit_eq:
  assumes "q_get q = Inr (y, q')"
  shows "sync_get_commit q accepted =
     (Returned y,
      (if sync_not_full_waiting q \<noteq> 0 then [Notify SyncNotFull] else []) @
      (if async_not_full_waiting q \<noteq> 0
       then call_soon_threadsafe q MakeAsyncNotFullNotifier accepted else []),
      q')"
  using assms by (simp add: sync_get_commit_def Let_def call_soon_threadsafe_def q_get_frame[OF assms])

lemma quiet_refl [simp]: "quiet q q"
  by (simp add: quiet_def)

lemma quiet_upd [simp]:
  "quiet q (q\<lparr>sync_not_empty_waiting := a\<rparr>)" "quiet q (q\<lparr>sync_not_full_waiting := a\<rparr>)"
  "quiet q (q\<lparr>async_not_empty_waiting := a\<rparr>)" "quiet q (q\<lparr>async_not_full_waiting := a\<rparr>)"
  "quiet q (q\<lparr>loop := l\<rparr>)" "quiet q (q\<lparr>pending := p\<rparr>)" "quiet q (q\<lparr>finished := f\<rparr>)"
  by (simp_all add: quiet_def)

lemma put_internal_commits:
  assumes "items q0 = items q" "strategy q0 = strategy q" "maxsize q0 = maxsize q"
    "unfinished_tasks q0 = unfinished_tasks q" "closing q0 = closing q"
    "\<not> (0 < maxsize q \<and> maxsize q \<le> qsize q)"
  shows "commits_put q x (put_internal q0 x)"
  unfolding commits_put_def using assms by (auto simp: put_internal_def)

lemma sync_put_wait_kind:
  assumes "sync_put_wait q0 x endtime now tmax acc = (out, effs, q1)"
    and "items q0 = items q" "strategy q0 = strategy q" "maxsize q0 = maxsize q"
    "unfinished_tasks q0 = unfinished_tasks q" "closing q0 = closing q"
  shows "(out \<noteq> Returned () \<and> quiet q q1) \<or> (out = Returned () \<and> commits_put q x q1)"
proof (cases "qsize q0 \<ge> maxsize q0")
  case True
  then show ?thesis using assms
    by (auto simp: sync_put_wait_def Let_def quiet_def split: option.splits if_splits)
next
  case False
  then have "\<not> (0 < maxsize q \<and> maxsize q \<le> qsize q)" using assms by (simp add: qsize_def)
  from put_internal_commits[OF assms(2-6) this, of x] False assms(1)
  show ?thesis by (auto simp: sync_put_wait_def sync_put_commit_eq)
qed

lemma sync_put_kind:
  assumes "sync_put q x block timeout t0 now tmax acc = (out, effs, q1)"
  shows "(out \<noteq> Returned () \<and> quiet q q1) \<or> (out = Returned () \<and> commits_put q x q1)"
proof (cases "closing q")
  case True
  then show ?thesis using assms by (auto simp: sync_put_def check_closing_def)
next
  case nc: False
  show ?thesis
  proof (cases "0 < maxsize q")
    case False
    then have "commits_put q x (put_internal q x)" by (intro put_internal_commits) auto
    then show ?thesis using assms nc False
      by (auto simp: sync_put_def check_closing_def sync_put_commit_eq)
  next
    case True
    show ?thesis
    proof (cases "block")
      case True
      with assms nc \<open>0 < maxsize q\<close> sync_put_wait_kind[of q x _ now tmax acc out effs q1 q]
      show ?thesis
        by (auto simp: sync_put_def check_closing_def Let_def split: option.splits if_splits)
    next
      case False
      show ?thesis
      proof (cases "qsize q \<ge> maxsize q")
        case full: True
        then show ?thesis using assms nc \<open>0 < maxsize q\<close> False
          by (auto simp: sync_put_def check_closing_def)
      next
        case nf: False
        then have "commits_put q x (put_internal q x)" by (intro put_internal_commits) auto
        then show ?thesis using assms nc \<open>0 < maxsize q\<close> False nf
          by (auto simp: sync_put_def check_closing_def sync_put_commit_eq)
      qed
    qed
  qed
qed

lemma sync_put_wake_kind:
  assumes "sync_put_wake q x endtime now tmax acc = (out, effs, q1)"
  shows "(out \<noteq> Returned () \<and> quiet q q1) \<or> (out = Returned () \<and> commits_put q x q1)"
  using assms unfolding sync_put_wake_def
  by (rule sync_put_wait_kind) simp_all

lemma sync_put_nowait_kind:
  assumes "sync_put_nowait q x acc = (out, effs, q1)"
  shows "(out \<noteq> Returned () \<and> quiet q q1) \<or> (out = Returned () \<and> commits_put q x q1)"
  using assms unfolding sync_put_nowait_def by (rule sync_put_kind)

lemma get_commits:
  assumes "q_get q0 = Inr (y, q1)" "items q0 = items q" "strategy q0 = strategy q"
    "maxsize q0 = maxsize q" "unfinished_tasks q0 = unfinished_tasks q"
    "closing q0 = closing q" "finished q0 = finished q"
  shows "commits_get q y q1"
  unfolding commits_get_def using assms q_get_frame[OF assms(1)] by auto

lemma sync_get_wait_kind:
  assumes "sync_get_wait q0 endtime now tmax acc = (out, effs, q1)"
    and "items q0 = items q" "strategy q0 = strategy q" "maxsize q0 = maxsize q"
    "unfinished_tasks q0 = unfinished_tasks q" "closing q0 = closing q" "finished q0 = finished q"
  shows "((\<forall>y. out \<noteq> Returned y) \<and> quiet q q1) \<or> (\<exists>y. out = Returned y \<and> commits_get q y q1)"
proof (cases "items q0 = []")
  case True
  then show ?thesis using assms
    by (auto simp: sync_get_wait_def Let_def quiet_def qsize_def split: option.splits if_splits)
next
  case False
  then obtain y q' where g: "q_get q0 = Inr (y, q')" using q_get_total by blast
  from get_commits[OF g assms(2-7)] False assms(1)
  show ?thesis by (auto simp: sync_get_wait_def qsize_def sync_get_commit_eq[OF g])
qed

lemma sync_get_kind:
  assumes "sync_get q block timeout t0 now tmax acc = (out, effs, q1)"
  shows "((\<forall>y. out \<noteq> Returned y) \<and> quiet q q1) \<or> (\<exists>y. out = Returned y \<and> commits_get q y q1)"
proof (cases "closing q")
  case True
  then show ?thesis using assms by (auto simp: sync_get_def check_closing_def)
next
  case nc: False
  show ?thesis
  proof (cases "block")
    case True
    with assms nc sync_get_wait_kind[of q _ now tmax acc out effs q1 q]
    show ?thesis
      by (auto simp: sync_get_def check_closing_def Let_def split: option.splits if_splits)
  next
    case False
    show ?thesis
    proof (cases "items q = []")
      case True
      then show ?thesis using assms nc False
        by (auto simp: sync_get_def check_closing_def qsize_def)
    next
      case ne: False
      then obtain y q' where g: "q_get q = Inr (y, q')" using q_get_total by blast
      have "commits_get q y q'" using g by (rule get_commits) simp_all
      then show ?thesis using assms nc False ne
        by (auto simp: sync_get_def check_closing_def qsize_def sync_get_commit_eq[OF g])
    qed
  qed
qed

lemma sync_get_wake_kind:
  assumes "sync_get_wake q endtime now tmax acc = (out, effs, q1)"
  shows "((\<forall>y. out \<noteq> Returned y) \<and> quiet q q1) \<or> (\<exists>y. out = Returned y \<and> commits_get q y q1)"
  using assms unfolding sync_get_wake_def
  by (rule sync_get_wait_kind) simp_all

lemma sync_get_nowait_kind:
  assumes "sync_get_nowait q acc = (out, effs, q1)"
  shows "((\<forall>y. out \<noteq> Returned y) \<and> quiet q q1) \<or> (\<exists>y. out = Returned y \<and> commits_get q y q1)"
  using assms unfolding sync_get_nowait_def by (rule sync_get_kind)

lemma sync_task_done_quiet: "sync_task_done q acc = (out, effs, q1) \<Longrightarrow> quiet q q1"
  by (auto simp: sync_task_done_def check_closing_def Let_def quiet_def split: if_splits)

lemma sync_join_quiet: "sync_join q = (out, effs, q1) \<Longrightarrow> quiet q q1"
  by (auto simp: sync_join_def sync_join_wait_def check_closing_def split: if_splits)

lemma sync_join_wake_quiet: "sync_join_wake q = (out, effs, q1) \<Longrightarrow> quiet q q1"
  by (auto simp: sync_join_wake_def sync_join_wait_def check_closing_def split: if_splits)

lemma get_loop_Inr: "get_loop q running = Inr (l, q1) \<Longrightarrow> q1 = q\<lparr>loop := Some l\<rparr>"
  by (auto simp: get_loop_def Let_def split: option.splits if_splits)

lemma async_put_commit_eq:
  "async_put_commit q item =
     (Returned (),
      (if async_not_empty_waiting q \<noteq> 0 then [Notify AsyncNotEmpty] else []),
      (if sync_not_empty_waiting q \<noteq> 0
       then notify_sync_not_empty (put_internal q item) else put_internal q item))"
  by (simp add: async_put_commit_def Let_def put_internal_def)

lemma commits_put_pending:
  "commits_put q x q1 \<Longrightarrow> commits_put q x (q1\<lparr>pending := p\<rparr>)"
  by (simp add: commits_put_def)

lemma commits_get_pending:
  "commits_get q x q1 \<Longrightarrow> commits_get q x (q1\<lparr>pending := p\<rparr>)"
  by (simp add: commits_get_def)

lemma async_put_commit_kind:
  assumes "items q0 = items q" "strategy q0 = strategy q" "maxsize q0 = maxsize q"
    "unfinished_tasks q0 = unfinished_tasks q" "closing q0 = closing q"
    "\<not> (0 < maxsize q \<and> maxsize q \<le> qsize q)"
  shows "commits_put q x (snd (snd (async_put_commit q0 x)))"
    and "fst (async_put_commit q0 x) = Returned ()"
  using put_internal_commits[OF assms, of x]
  by (simp_all add: async_put_commit_eq notify_sync_not_empty_def commits_put_pending)

lemma async_put_wait_kind:
  assumes "async_put_wait q0 x = (out, effs, q1)"
    and "items q0 = items q" "strategy q0 = strategy q" "maxsize q0 = maxsize q"
    "unfinished_tasks q0 = unfinished_tasks q" "closing q0 = closing q"
  shows "(out \<noteq> Returned () \<and> quiet q q1) \<or> (out = Returned () \<and> commits_put q x q1)"
proof (cases "qsize q0 \<ge> maxsize q0")
  case True
  then show ?thesis using assms
    by (auto simp: async_put_wait_def Let_def quiet_def split: if_splits)
next
  case False
  then have "\<not> (0 < maxsize q \<and> maxsize q \<le> qsize q)" using assms by (simp add: qsize_def)
  from async_put_commit_kind[OF assms(2-6) this, of x] False assms(1)
  show ?thesis by (auto simp: async_put_wait_def Let_def)
qed

lemma async_put_kind:
  assumes "async_put q x running = (out, effs, q1)"
  shows "(out \<noteq> Returned () \<and> quiet q q1) \<or> (out = Returned () \<and> commits_put q x q1)"
proof (cases "closing q")
  case True
  then show ?thesis using assms by (auto simp: async_put_def check_closing_def)
next
  case nc: False
  show ?thesis
  proof (cases "get_loop q running")
    case (Inl e)
    then show ?thesis using assms nc by (auto simp: async_put_def check_closing_def)
  next
    case (Inr p)
    then obtain l where gl: "get_loop q running = Inr (l, q\<lparr>loop := Some l\<rparr>)"
      using get_loop_Inr by (cases p) fastforce
    let ?q = "q\<lparr>loop := Some l\<rparr>"
    show ?thesis
    proof (cases "0 < maxsize q")
      case True
      then have "async_put_wait ?q x = (out, effs, q1)"
        using assms nc gl by (simp add: async_put_def check_closing_def)
      then show ?thesis by (rule async_put_wait_kind) simp_all
    next
      case False
      then have "async_put_commit ?q x = (out, effs, q1)"
        using assms nc gl by (simp add: async_put_def check_closing_def)
      moreover have "\<not> (0 < maxsize q \<and> maxsize q \<le> qsize q)" using False by simp
      ultimately show ?thesis using async_put_commit_kind[of ?q q x] by auto
    qed
  qed
qed

lemma async_put_wake_kind:
  assumes "async_put_wake q x = (out, effs, q1)"
  shows "(out \<noteq> Returned () \<and> quiet q q1) \<or> (out = Returned () \<and> commits_put q x q1)"
  using assms unfolding async_put_wake_def
  by (rule async_put_wait_kind) simp_all

lemma async_put_cancel_quiet: "async_put_cancel q = (out, effs, q1) \<Longrightarrow> out \<noteq> Returned () \<and> quiet q q1"
  by (auto simp: async_put_cancel_def)

lemma notify_async_not_empty_bound:
  "loop q = Some l \<Longrightarrow> notify_async_not_empty q False accepted =
     Inr ([], q\<lparr>pending := pending q @ [\<lparr>notifier = AsyncNotEmptyNotifier, cancelled = False\<rparr>]\<rparr>)"
  by (simp add: notify_async_not_empty_def make_async_not_empty_notifier_def)

lemma notify_async_not_full_bound:
  "loop q = Some l \<Longrightarrow> notify_async_not_full q False accepted =
     Inr ([], q\<lparr>pending := pending q @ [\<lparr>notifier = AsyncNotFullNotifier, cancelled = False\<rparr>]\<rparr>)"
  by (simp add: notify_async_not_full_def make_async_not_full_notifier_def)

lemma put_internal_fields [simp]:
  "loop (put_internal q x) = loop q" "maxsize (put_internal q x) = maxsize q"
  "strategy (put_internal q x) = strategy q"
  "unfinished_tasks (put_internal q x) = unfinished_tasks q + 1"
  "sync_not_empty_waiting (put_internal q x) = sync_not_empty_waiting q"
  "sync_not_full_waiting (put_internal q x) = sync_not_full_waiting q"
  "async_not_empty_waiting (put_internal q x) = async_not_empty_waiting q"
  "async_not_full_waiting (put_internal q x) = async_not_full_waiting q"
  "finished (put_internal q x) = False" "closing (put_internal q x) = closing q"
  "pending (put_internal q x) = pending q"
  "items (put_internal q x) = items (q_put q x)"
  by (simp_all add: put_internal_def)

text \<open>The non-blocking put of the suspending facade, once the loop is bound.\<close>

lemma async_put_nowait_eq:
  assumes "\<not> closing q" "get_loop q running = Inr (l, q0)"
  shows "async_put_nowait q x running =
     (if maxsize q > 0 \<and> qsize q \<ge> maxsize q then (Raised AsyncQueueFull, [], q0)
      else (Returned (), [],
            (put_internal q0 x)\<lparr>pending := pending q @
               (if async_not_empty_waiting q \<noteq> 0
                then [\<lparr>notifier = AsyncNotEmptyNotifier, cancelled = False\<rparr>] else []) @
               (if sync_not_empty_waiting q \<noteq> 0
                then [\<lparr>notifier = SyncNotEmptyNotifier, cancelled = False\<rparr>] else [])\<rparr>))"
proof -
  have q0: "q0 = q\<lparr>loop := Some l\<rparr>" using assms(2) by (rule get_loop_Inr)
  have l: "loop (put_internal (q\<lparr>loop := Some l\<rparr>) x) = Some l" by simp
  show ?thesis
    using assms(1) unfolding async_put_nowait_def check_closing_def assms(2)
    by (simp add: Let_def notify_async_not_empty_bound[OF l] notify_sync_not_empty_def q0 qsize_def)
qed

lemma async_put_nowait_kind:
  assumes "async_put_nowait q x running = (out, effs, q1)"
  shows "(out \<noteq> Returned () \<and> quiet q q1) \<or> (out = Returned () \<and> commits_put q x q1)"
proof (cases "closing q")
  case True
  then show ?thesis using assms by (auto simp: async_put_nowait_def check_closing_def)
next
  case nc: False
  show ?thesis
  proof (cases "get_loop q running")
    case (Inl e)
    then show ?thesis using assms nc by (auto simp: async_put_nowait_def check_closing_def)
  next
    case (Inr p)
    then obtain l where gl: "get_loop q running = Inr (l, q\<lparr>loop := Some l\<rparr>)"
      using get_loop_Inr by (cases p) fastforce
    show ?thesis
    proof (cases "maxsize q > 0 \<and> qsize q \<ge> maxsize q")
      case True
      then show ?thesis using assms unfolding async_put_nowait_eq[OF nc gl] by auto
    next
      case False
      have "commits_put q x (put_internal (q\<lparr>loop := Some l\<rparr>) x)"
        using False by (intro put_internal_commits) auto
      then show ?thesis
        using assms False unfolding async_put_nowait_eq[OF nc gl]
        by (auto simp: commits_put_pending)
    qed
  qed
qed

lemma async_get_commit_eq:
  assumes "q_get q = Inr (y, q')"
  shows "async_get_commit q =
     (Returned y,
      (if async_not_full_waiting q \<noteq> 0 then [Notify AsyncNotFull] else []),
      (if sync_not_full_waiting q \<noteq> 0 then notify_sync_not_full q' else q'))"
  using assms by (simp add: async_get_commit_def Let_def q_get_frame[OF assms])

lemma async_get_wait_kind:
  assumes "async_get_wait q0 = (out, effs, q1)"
    and "items q0 = items q" "strategy q0 = strategy q" "maxsize q0 = maxsize q"
    "unfinished_tasks q0 = unfinished_tasks q" "closing q0 = closing q" "finished q0 = finished q"
  shows "((\<forall>y. out \<noteq> Returned y) \<and> quiet q q1) \<or> (\<exists>y. out = Returned y \<and> commits_get q y q1)"
proof (cases "items q0 = []")
  case True
  then show ?thesis using assms
    by (auto simp: async_get_wait_def Let_def quiet_def qsize_def split: if_splits)
next
  case False
  then obtain y q' where g: "q_get q0 = Inr (y, q')" using q_get_total by blast
  from get_commits[OF g assms(2-7)] False assms(1)
  show ?thesis
    by (auto simp: async_get_wait_def Let_def qsize_def async_get_commit_eq[OF g]
        notify_sync_not_full_def commits_get_pending split: if_splits)
qed

lemma async_get_kind:
  assumes "async_get q running = (out, effs, q1)"
  shows "((\<forall>y. out \<noteq> Returned y) \<and> quiet q q1) \<or> (\<exists>y. out = Returned y \<and> commits_get q y q1)"
proof (cases "closing q")
  case True
  then show ?thesis using assms by (auto simp: async_get_def check_closing_def)
next
  case nc: False
  show ?thesis
  proof (cases "get_loop q running")
    case (Inl e)
    then show ?thesis using assms nc by (auto simp: async_get_def check_closing_def)
  next
    case (Inr p)
    then obtain l where gl: "get_loop q running = Inr (l, q\<lparr>loop := Some l\<rparr>)"
      using get_loop_Inr by (cases p) fastforce
    have "async_get_wait (q\<lparr>loop := Some l\<rparr>) = (out, effs, q1)"
      using assms nc gl by (simp add: async_get_def check_closing_def)
    then show ?thesis by (rule async_get_wait_kind) simp_all
  qed
qed

lemma async_get_wake_kind:
  assumes "async_get_wake q = (out, effs, q1)"
  shows "((\<forall>y. out \<noteq> Returned y) \<and> quiet q q1) \<or> (\<exists>y. out = Returned y \<and> commits_get q y q1)"
  using assms unfolding async_get_wake_def
  by (rule async_get_wait_kind) simp_all

lemma async_get_cancel_quiet:
  "async_get_cancel q = (out, effs, q1) \<Longrightarrow> (\<forall>y. out \<noteq> Returned y) \<and> quiet q q1"
  by (auto simp: async_get_cancel_def)

lemma async_get_nowait_eq:
  assumes "\<not> closing q" "items q \<noteq> []" "get_loop q running = Inr (l, q0)" "q_get q0 = Inr (y, q')"
  shows "async_get_nowait q running =
     (Returned y, [],
      q'\<lparr>pending := pending q @
         (if async_not_full_waiting q \<noteq> 0
          then [\<lparr>notifier = AsyncNotFullNotifier, cancelled = False\<rparr>] else []) @
         (if sync_not_full_waiting q \<noteq> 0
          then [\<lparr>notifier = SyncNotFullNotifier, cancelled = False\<rparr>] else [])\<rparr>)"
proof -
  have q0: "q0 = q\<lparr>loop := Some l\<rparr>" using assms(3) by (rule get_loop_Inr)
  have g: "q_get (q\<lparr>loop := Some l\<rparr>) = Inr (y, q')" using assms(4) q0 by simp
  note fr = q_get_frame[OF g]
  have l: "loop q' = Some l" by (simp add: fr)
  show ?thesis
    using assms(1,2) unfolding async_get_nowait_def check_closing_def assms(3)
    by (simp add: Let_def g notify_async_not_full_bound[OF l] notify_sync_not_full_def
        fr q0 qsize_def)
qed

lemma async_get_nowait_kind:
  assumes "async_get_nowait q running = (out, effs, q1)"
  shows "((\<forall>y. out \<noteq> Returned y) \<and> quiet q q1) \<or> (\<exists>y. out = Returned y \<and> commits_get q y q1)"
proof (cases "closing q")
  case True
  then show ?thesis using assms
    by (auto simp: async_get_nowait_def check_closing_def)
next
  case nc: False
  show ?thesis
  proof (cases "items q = []")
    case True
    then show ?thesis using assms nc
      by (auto simp: async_get_nowait_def check_closing_def qsize_def)
  next
    case ne: False
    show ?thesis
  proof (cases "get_loop q running")
    case (Inl e)
    then show ?thesis using assms nc ne
      by (auto simp: async_get_nowait_def check_closing_def qsize_def)
  next
    case (Inr p)
    then obtain l where gl: "get_loop q running = Inr (l, q\<lparr>loop := Some l\<rparr>)"
      using get_loop_Inr by (cases p) fastforce
    obtain y q' where g: "q_get (q\<lparr>loop := Some l\<rparr>) = Inr (y, q')"
      using q_get_total[of "q\<lparr>loop := Some l\<rparr>"] ne by auto
    have "commits_get q y q'" using g by (rule get_commits) simp_all
    then show ?thesis
      using assms unfolding async_get_nowait_eq[OF nc ne gl g]
      by (auto simp: commits_get_pending)
  qed
  qed
qed

lemma async_task_done_quiet: "async_task_done q = (out, effs, q1) \<Longrightarrow> quiet q q1"
  by (auto simp: async_task_done_def check_closing_def Let_def quiet_def split: if_splits)

lemma async_join_quiet: "async_join q = (out, effs, q1) \<Longrightarrow> quiet q q1"
  by (auto simp: async_join_def check_closing_def split: if_splits)

lemma close_quiet: "close q = (out, effs, q1) \<Longrightarrow> quiet q q1"
  by (auto simp: close_def quiet_def)

lemma wait_closed_quiet: "wait_closed q = (out, effs, q1) \<Longrightarrow> quiet q q1"
  by (auto simp: wait_closed_def split: if_splits)

lemma wait_closed_wake_quiet: "wait_closed_wake q = (out, effs, q1) \<Longrightarrow> quiet q q1"
  by (auto simp: wait_closed_wake_def split: if_splits)

lemma wait_closed_done_quiet: "wait_closed_done q = (out, effs, q1) \<Longrightarrow> quiet q q1"
  by (auto simp: wait_closed_done_def)

lemma aclose_quiet: "aclose q = (out, effs, q1) \<Longrightarrow> quiet q q1"
  by (auto simp: aclose_def close_def wait_closed_def quiet_def split: if_splits)

lemma run_callback_quiet: "run_callback q cb = (out, effs, q1) \<Longrightarrow> quiet q q1"
  by (cases cb)
     (auto simp: run_callback_def make_async_not_empty_notifier_def
        make_async_not_full_notifier_def split: if_splits)

lemma run_notifier_quiet: "run_notifier q n = (out, effs, q1) \<Longrightarrow> quiet q q1"
  by (cases n) (auto simp: run_notifier_def)

lemma future_done_quiet: "future_done q i = (out, effs, q1) \<Longrightarrow> quiet q q1"
  by (auto simp: future_done_def split: if_splits)

lemma kind_put:
  assumes "reply (\<lambda>u. VNone) r = (out, effs, q1)" "put_item c = Some x"
    and "\<And>res. r = (res, effs, q1) \<Longrightarrow>
          (res \<noteq> Returned () \<and> quiet q q1) \<or> (res = Returned () \<and> commits_put q x q1)"
  shows "kind c q out q1"
proof -
  obtain res where r: "r = (res, effs, q1)" and out: "out = map_outcome (\<lambda>u. VNone) res"
    using assms(1) by (cases r) (auto simp: reply_def)
  from assms(3)[OF r] show ?thesis
    unfolding kind_def out using assms(2) by (cases res) (auto simp: observe_def)
qed

lemma kind_get:
  assumes "reply VItem r = (out, effs, q1)" "is_get c" "put_item c = None"
    and "\<And>res. r = (res, effs, q1) \<Longrightarrow>
          ((\<forall>y. res \<noteq> Returned y) \<and> quiet q q1) \<or> (\<exists>y. res = Returned y \<and> commits_get q y q1)"
  shows "kind c q out q1"
proof -
  obtain res where r: "r = (res, effs, q1)" and out: "out = map_outcome VItem res"
    using assms(1) by (cases r) (auto simp: reply_def)
  from assms(4)[OF r] show ?thesis
    unfolding kind_def out using assms(2,3) by (cases res) (auto simp: observe_def)
qed

lemma kind_quiet:
  assumes "reply f r = (out, effs, q1)" "\<not> is_get c" "put_item c = None"
    and "\<And>res. r = (res, effs, q1) \<Longrightarrow> quiet q q1"
  shows "kind c q out q1"
proof -
  obtain res where r: "r = (res, effs, q1)" and out: "out = map_outcome f res"
    using assms(1) by (cases r) (auto simp: reply_def)
  from assms(4)[OF r] show ?thesis
    unfolding kind_def out using assms(2,3)
    by (cases res) (auto simp: observe_def split: val.splits)
qed

lemma kind_answer:
  assumes "answer v q = (out, effs, q1)" "\<not> is_get c" "put_item c = None"
  shows "kind c q out q1"
  using assms unfolding kind_def
  by (auto simp: answer_def observe_def split: val.splits)

lemma step_kind:
  assumes "step c q = (out, effs, q1)"
  shows "kind c q out q1"
proof (cases c)
  case Close
  then show ?thesis using assms
    by (auto intro!: kind_quiet[where r = "close q"] simp: is_get_def put_item_def dest: close_quiet)
next
  case WaitClosed
  then show ?thesis using assms
    by (auto intro!: kind_quiet[where r = "wait_closed q"] simp: is_get_def put_item_def dest: wait_closed_quiet)
next
  case WaitClosedWake
  then show ?thesis using assms
    by (auto intro!: kind_quiet[where r = "wait_closed_wake q"] simp: is_get_def put_item_def dest: wait_closed_wake_quiet)
next
  case WaitClosedDone
  then show ?thesis using assms
    by (auto intro!: kind_quiet[where r = "wait_closed_done q"] simp: is_get_def put_item_def dest: wait_closed_done_quiet)
next
  case Aclose
  then show ?thesis using assms
    by (auto intro!: kind_quiet[where r = "aclose q"] simp: is_get_def put_item_def dest: aclose_quiet)
next
  case (SyncPut x b t t0 now tmax acc)
  then show ?thesis using assms
    by (auto intro!: kind_put[where r = "sync_put q x b t t0 now tmax acc"] simp: put_item_def dest: sync_put_kind)
next
  case (SyncPutWake x e now tmax acc)
  then show ?thesis using assms
    by (auto intro!: kind_put[where r = "sync_put_wake q x e now tmax acc"] simp: put_item_def dest: sync_put_wake_kind)
next
  case (SyncPutNowait x acc)
  then show ?thesis using assms
    by (auto intro!: kind_put[where r = "sync_put_nowait q x acc"] simp: put_item_def dest: sync_put_nowait_kind)
next
  case (SyncGet b t t0 now tmax acc)
  then show ?thesis using assms
    by (auto intro!: kind_get[where r = "sync_get q b t t0 now tmax acc"] simp: put_item_def is_get_def dest: sync_get_kind)
next
  case (SyncGetWake e now tmax acc)
  then show ?thesis using assms
    by (auto intro!: kind_get[where r = "sync_get_wake q e now tmax acc"] simp: put_item_def is_get_def dest: sync_get_wake_kind)
next
  case (SyncGetNowait acc)
  then show ?thesis using assms
    by (auto intro!: kind_get[where r = "sync_get_nowait q acc"] simp: put_item_def is_get_def dest: sync_get_nowait_kind)
next
  case (SyncTaskDone acc)
  then show ?thesis using assms
    by (auto intro!: kind_quiet[where r = "sync_task_done q acc"] simp: is_get_def put_item_def dest: sync_task_done_quiet)
next
  case SyncJoin
  then show ?thesis using assms
    by (auto intro!: kind_quiet[where r = "sync_join q"] simp: is_get_def put_item_def dest: sync_join_quiet)
next
  case SyncJoinWake
  then show ?thesis using assms
    by (auto intro!: kind_quiet[where r = "sync_join_wake q"] simp: is_get_def put_item_def dest: sync_join_wake_quiet)
next
  case (AsyncPut x r)
  then show ?thesis using assms
    by (auto intro!: kind_put[where r = "async_put q x r"] simp: put_item_def dest: async_put_kind)
next
  case (AsyncPutWake x)
  then show ?thesis using assms
    by (auto intro!: kind_put[where r = "async_put_wake q x"] simp: put_item_def dest: async_put_wake_kind)
next
  case AsyncPutCancel
  then show ?thesis using assms
    by (auto intro!: kind_quiet[where r = "async_put_cancel q"] simp: is_get_def put_item_def dest: async_put_cancel_quiet)
next
  case (AsyncPutNowait x r)
  then show ?thesis using assms
    by (auto intro!: kind_put[where r = "async_put_nowait q x r"] simp: put_item_def dest: async_put_nowait_kind)
next
  case (AsyncGet r)
  then show ?thesis using assms
    by (auto intro!: kind_get[where r = "async_get q r"] simp: put_item_def is_get_def dest: async_get_kind)
next
  case AsyncGetWake
  then show ?thesis using assms
    by (auto intro!: kind_get[where r = "async_get_wake q"] simp: put_item_def is_get_def dest: async_get_wake_kind)
next
  case AsyncGetCancel
  then show ?thesis using assms
    by (auto intro!: kind_quiet[where r = "async_get_cancel q"] simp: is_get_def put_item_def dest: async_get_cancel_quiet)
next
  case (AsyncGetNowait r)
  then show ?thesis using assms
    by (auto intro!: kind_get[where r = "async_get_nowait q r"] simp: put_item_def is_get_def dest: async_get_nowait_kind)
next
  case AsyncTaskDone
  then show ?thesis using assms
    by (auto intro!: kind_quiet[where r = "async_task_done q"] simp: is_get_def put_item_def dest: async_task_done_quiet)
next
  case AsyncJoin
  then show ?thesis using assms
    by (auto intro!: kind_quiet[where r = "async_join q"] simp: is_get_def put_item_def dest: async_join_quiet)
next
  case (RunCallback cb)
  then show ?thesis using assms
    by (auto intro!: kind_quiet[where r = "run_callback q cb"] simp: is_get_def put_item_def dest: run_callback_quiet)
next
  case (RunNotifier n)
  then show ?thesis using assms
    by (auto intro!: kind_quiet[where r = "run_notifier q n"] simp: is_get_def put_item_def dest: run_notifier_quiet)
next
  case (FutureDone i)
  then show ?thesis using assms
    by (auto intro!: kind_quiet[where r = "future_done q i"] simp: is_get_def put_item_def dest: future_done_quiet)
qed (use assms in \<open>auto intro!: kind_answer simp: is_get_def put_item_def\<close>)

















section \<open>Capacity, completion counter and frame\<close>

lemma length_q_put: "length (items (q_put q x)) = Suc (length (items q))"
proof -
  have "size (mset (heappush (items q) x)) = Suc (length (items q))"
    by (simp add: mset_heappush)
  then show ?thesis by (cases "strategy q") (simp_all add: q_put_def)
qed

lemma mset_q_put: "mset (items (q_put q x)) = add_mset x (mset (items q))"
  by (cases "strategy q") (simp_all add: q_put_def mset_heappush)

lemma mset_q_get:
  assumes "q_get q = Inr (y, q')"
  shows "mset (items q) = add_mset y (mset (items q'))"
proof (cases "strategy q")
  case Prio
  with assms have pop: "heappop (items q) = Inr (y, items q')"
    by (auto simp: q_get_def split: sum.splits)
  then have "items q \<noteq> []" by (auto simp: heappop_def)
  from heappop_nonempty[OF this] pop show ?thesis by (metis Inr_inject prod.inject)
next
  case Fifo
  with assms show ?thesis by (cases "items q") (auto simp: q_get_def split: if_splits)
next
  case Lifo
  with assms have "items q \<noteq> []" "y = last (items q)" "items q' = butlast (items q)"
    by (auto simp: q_get_def split: if_splits)
  then have "items q = items q' @ [y]" by simp
  then show ?thesis by (metis mset.simps(2) mset_append union_mset_add_mset_right add.right_neutral mset.simps(1))
qed

lemma commits_put_size: "commits_put q x q1 \<Longrightarrow> qsize q1 = qsize q + 1 \<and> qsize q1 \<le> maxsize q1 \<or> qsize q1 = qsize q + 1 \<and> maxsize q1 \<le> 0"
  by (auto simp: commits_put_def qsize_def length_q_put)

lemma commits_get_size: "commits_get q y q1 \<Longrightarrow> qsize q1 = qsize q - 1"
proof -
  assume "commits_get q y q1"
  then obtain q0 q' where g: "items q0 = items q" "q_get q0 = Inr (y, q')" "items q1 = items q'"
    by (auto simp: commits_get_def)
  from mset_q_get[OF g(2)] have "size (mset (items q)) = size (add_mset y (mset (items q1)))"
    by (simp add: g)
  then show ?thesis by (simp add: qsize_def)
qed

lemma snd_run_Cons: "snd (run (c # cs) q) = snd (run cs (snd (snd (step c q))))"
  by (simp split: prod.splits)

lemma is_get_not_put: "is_get c \<Longrightarrow> put_item c = None"
  by (cases c) (simp_all add: is_get_def put_item_def)

lemma step_within_capacity:
  assumes "step c q = (out, effs, q1)" "within_capacity q"
  shows "within_capacity q1"
proof -
  from step_kind[OF assms(1)] consider
      (quiet) "quiet q q1"
    | (put) x where "commits_put q x q1"
    | (get) y where "commits_get q y q1"
    unfolding kind_def by blast
  then show ?thesis
  proof cases
    case quiet
    then show ?thesis using assms(2) by (simp add: within_capacity_def quiet_def qsize_def)
  next
    case put
    from commits_put_size[OF this] show ?thesis by (auto simp: within_capacity_def)
  next
    case get
    from commits_get_size[OF this] get assms(2) show ?thesis
      by (auto simp: within_capacity_def commits_get_def)
  qed
qed

lemma run_within_capacity:
  "within_capacity q \<Longrightarrow> within_capacity (snd (run cs q))"
proof (induction cs arbitrary: q)
  case Nil
  then show ?case by simp
next
  case (Cons c cs)
  obtain out effs q1 where st: "step c q = (out, effs, q1)" by (cases "step c q")
  from Cons.IH[OF step_within_capacity[OF st Cons.prems]]
  show ?case by (simp only: snd_run_Cons st snd_conv)
qed

lemma run_maxsize: "maxsize (snd (run cs q)) = maxsize q"
proof (induction cs arbitrary: q)
  case Nil
  then show ?case by simp
next
  case (Cons c cs)
  obtain out effs q1 where st: "step c q = (out, effs, q1)" by (cases "step c q")
  from step_kind[OF st] have "maxsize q1 = maxsize q"
    unfolding kind_def by (auto simp: quiet_def commits_put_def commits_get_def)
  with Cons.IH[of q1] show ?case by (simp only: snd_run_Cons st snd_conv)
qed

lemma put_returned:
  assumes "step c q = (Returned v, effs, q1)" "put_item c = Some x"
  shows "commits_put q x q1"
  using step_kind[OF assms(1)] assms(2) unfolding kind_def by (auto simp: observe_def)

lemma get_returned:
  assumes "step c q = (Returned v, effs, q1)" "is_get c"
  shows "\<exists>y. v = VItem y \<and> commits_get q y q1"
  using step_kind[OF assms(1)] assms(2) is_get_not_put[OF assms(2)]
  unfolding kind_def by (auto simp: observe_def)

text \<open>
  Claim C2. A queue constructed with \<open>maxsize > 0\<close> never holds more than \<open>maxsize\<close>
  items, whatever calls are made on it; and in any state of a bounded queue whose buffer
  holds \<open>maxsize\<close> items or more, no put of either facade (blocking, woken from its
  wait, suspending or non-blocking) returns: it waits or raises, and the buffer stays as
  it is.
\<close>

theorem bounded_queue_never_over_capacity:
  "(0 < m \<longrightarrow> qsize (snd (run cs (init k m running :: 'a::linorder queue))) \<le> m) \<and>
   (0 < maxsize (q :: 'a queue) \<and> maxsize q \<le> qsize q \<and> put_item c \<noteq> None \<longrightarrow>
      (\<forall>v. fst (step c q) \<noteq> Returned v) \<and> items (snd (snd (step c q))) = items q)"
proof (intro conjI impI)
  assume m: "0 < m"
  have "within_capacity (init k m running :: 'a queue)"
    by (simp add: within_capacity_def init_def qsize_def)
  from run_within_capacity[OF this, of cs] m
  show "qsize (snd (run cs (init k m running))) \<le> m"
    by (simp add: within_capacity_def run_maxsize) (simp add: init_def)
next
  assume a: "0 < maxsize q \<and> maxsize q \<le> qsize q \<and> put_item c \<noteq> None"
  then obtain x where x: "put_item c = Some x" by auto
  obtain out effs q1 where st: "step c q = (out, effs, q1)" by (cases "step c q")
  have nr: "out \<noteq> Returned v" for v
  proof
    assume "out = Returned v"
    with st x have "commits_put q x q1" by (intro put_returned) simp_all
    with a show False by (simp add: commits_put_def)
  qed
  then show "\<forall>v. fst (step c q) \<noteq> Returned v" by (simp add: st)
  from step_kind[OF st] nr a x have "quiet q q1"
    unfolding kind_def by (auto simp: commits_put_def is_get_def put_item_def split: call.splits) 
  then show "items (snd (snd (step c q))) = items q" by (simp add: st quiet_def)
qed

theorem bounded_queue_never_over_capacity_witness:
  "qsize (snd (run [SyncPutNowait 1 True, AsyncPutNowait 2 (Some 0)]
                 (init Fifo 1 None :: nat queue))) \<le> 1 \<and>
   (\<forall>v. fst (step (AsyncPutNowait 2 (Some 0))
                 (snd (snd (step (SyncPutNowait 1 True) (init Fifo 1 None :: nat queue)))))
          \<noteq> Returned v) \<and>
   items (snd (snd (step (AsyncPutNowait 2 (Some 0))
                 (snd (snd (step (SyncPutNowait 1 True) (init Fifo 1 None :: nat queue)))))))
     = [1]"
proof -
  let ?q = "snd (snd (step (SyncPutNowait 1 True) (init Fifo 1 None :: nat queue)))"
  let ?c = "AsyncPutNowait 2 (Some 0) :: nat call"
  have h1: "0 < (1::int)" by simp
  have h2: "0 < maxsize ?q \<and> maxsize ?q \<le> qsize ?q \<and> put_item ?c \<noteq> None" by code_simp
  have h3: "items ?q = [1]" by code_simp
  from bounded_queue_never_over_capacity
         [where m = 1 and k = Fifo and running = None and q = ?q and c = ?c
            and cs = "[SyncPutNowait 1 True, AsyncPutNowait 2 (Some 0)] :: nat call list"]
       h1 h2 h3
  show ?thesis by simp
qed

lemma step_unfinished:
  assumes "step c q = (out, effs, q1)" "0 \<le> unfinished_tasks q"
  shows "0 \<le> unfinished_tasks q1"
  using step_kind[OF assms(1)] assms(2) unfolding kind_def
  by (auto simp: quiet_def commits_put_def commits_get_def)

lemma run_unfinished:
  "0 \<le> unfinished_tasks q \<Longrightarrow> 0 \<le> unfinished_tasks (snd (run cs q))"
proof (induction cs arbitrary: q)
  case Nil
  then show ?case by simp
next
  case (Cons c cs)
  obtain out effs q1 where st: "step c q = (out, effs, q1)" by (cases "step c q")
  from Cons.IH[OF step_unfinished[OF st Cons.prems]]
  show ?case by (simp only: snd_run_Cons st snd_conv)
qed

lemma sync_task_done_open:
  assumes "\<not> closing q" "0 \<le> unfinished_tasks q"
  shows "sync_task_done q acc =
     (if unfinished_tasks q = 0 then (Raised TooManyCompletions, [], q)
      else (Returned (),
            (if unfinished_tasks q = 1
             then [NotifyAll AllTasksDone] @ call_soon_threadsafe q FinishedSet acc else []),
            q\<lparr>unfinished_tasks := unfinished_tasks q - 1\<rparr>))"
  using assms by (auto simp: sync_task_done_def check_closing_def Let_def)

lemma async_task_done_open:
  assumes "\<not> closing q" "0 \<le> unfinished_tasks q"
  shows "async_task_done q =
     (if unfinished_tasks q = 0 then (Raised TooManyCompletions, [], q)
      else (Returned (),
            (if unfinished_tasks q = 1 then [NotifyAll AllTasksDone] else []),
            (if unfinished_tasks q = 1
             then q\<lparr>unfinished_tasks := unfinished_tasks q - 1, finished := True\<rparr>
             else q\<lparr>unfinished_tasks := unfinished_tasks q - 1\<rparr>)))"
  using assms by (auto simp: async_task_done_def check_closing_def Let_def)

text \<open>
  Claim C5, as amended. On a queue that is not closing and whose \<open>unfinished_tasks\<close> is
  not negative, \<open>task_done\<close> of either facade raises \<open>TooManyCompletions\<close> exactly when
  \<open>unfinished_tasks\<close> is 0, and then changes nothing; otherwise it returns and
  \<open>unfinished_tasks\<close> is one less. On a closing queue it raises \<open>ClosedQueue\<close> and
  changes nothing. After any sequence of calls from construction on,
  \<open>unfinished_tasks\<close> is not negative.
\<close>

theorem task_done_counts_down:
  "(\<not> closing (q :: 'a::linorder queue) \<and> 0 \<le> unfinished_tasks q \<longrightarrow>
      (fst (sync_task_done q acc) = Raised TooManyCompletions \<longleftrightarrow> unfinished_tasks q = 0) \<and>
      (fst (async_task_done q) = Raised TooManyCompletions \<longleftrightarrow> unfinished_tasks q = 0) \<and>
      (unfinished_tasks q = 0 \<longrightarrow>
         snd (snd (sync_task_done q acc)) = q \<and> snd (snd (async_task_done q)) = q) \<and>
      (unfinished_tasks q \<noteq> 0 \<longrightarrow>
         fst (sync_task_done q acc) = Returned () \<and>
         fst (async_task_done q) = Returned () \<and>
         unfinished_tasks (snd (snd (sync_task_done q acc))) = unfinished_tasks q - 1 \<and>
         unfinished_tasks (snd (snd (async_task_done q))) = unfinished_tasks q - 1)) \<and>
   (closing q \<longrightarrow>
      sync_task_done q acc = (Raised ClosedQueue, [], q) \<and>
      async_task_done q = (Raised ClosedQueue, [], q)) \<and>
   0 \<le> unfinished_tasks (snd (run cs (init k m running :: 'a queue)))"
proof (intro conjI impI)
  assume "closing q"
  then show "sync_task_done q acc = (Raised ClosedQueue, [], q)"
    and "async_task_done q = (Raised ClosedQueue, [], q)"
    by (simp_all add: sync_task_done_def async_task_done_def check_closing_def)
next
  have "0 \<le> unfinished_tasks (init k m running :: 'a queue)" by (simp add: init_def)
  then show "0 \<le> unfinished_tasks (snd (run cs (init k m running)))" by (rule run_unfinished)
next
  assume a: "\<not> closing q \<and> 0 \<le> unfinished_tasks q"
  then have s: "sync_task_done q acc =
     (if unfinished_tasks q = 0 then (Raised TooManyCompletions, [], q)
      else (Returned (),
            (if unfinished_tasks q = 1
             then [NotifyAll AllTasksDone] @ call_soon_threadsafe q FinishedSet acc else []),
            q\<lparr>unfinished_tasks := unfinished_tasks q - 1\<rparr>))"
    by (intro sync_task_done_open) simp_all
  from a have t: "async_task_done q =
     (if unfinished_tasks q = 0 then (Raised TooManyCompletions, [], q)
      else (Returned (),
            (if unfinished_tasks q = 1 then [NotifyAll AllTasksDone] else []),
            (if unfinished_tasks q = 1
             then q\<lparr>unfinished_tasks := unfinished_tasks q - 1, finished := True\<rparr>
             else q\<lparr>unfinished_tasks := unfinished_tasks q - 1\<rparr>)))"
    by (intro async_task_done_open) simp_all
  show "fst (sync_task_done q acc) = Raised TooManyCompletions \<longleftrightarrow> unfinished_tasks q = 0"
    unfolding s by simp
  show "fst (async_task_done q) = Raised TooManyCompletions \<longleftrightarrow> unfinished_tasks q = 0"
    unfolding t by simp
  { assume "unfinished_tasks q = 0"
    then show "snd (snd (sync_task_done q acc)) = q" "snd (snd (async_task_done q)) = q"
      unfolding s t by simp_all }
  { assume "unfinished_tasks q \<noteq> 0"
    then show "fst (sync_task_done q acc) = Returned ()" "fst (async_task_done q) = Returned ()"
      "unfinished_tasks (snd (snd (sync_task_done q acc))) = unfinished_tasks q - 1"
      "unfinished_tasks (snd (snd (async_task_done q))) = unfinished_tasks q - 1"
      unfolding s t by simp_all }
qed

theorem task_done_counts_down_witness:
  "fst (sync_task_done (snd (run [SyncPutNowait 7 True] (init Fifo 0 None :: nat queue))) True)
     = Returned () \<and>
   unfinished_tasks (snd (snd (sync_task_done
       (snd (run [SyncPutNowait 7 True] (init Fifo 0 None :: nat queue))) True))) = 0 \<and>
   fst (async_task_done (snd (run [SyncPutNowait 7 True, SyncTaskDone True]
       (init Fifo 0 None :: nat queue)))) = Raised TooManyCompletions \<and>
   sync_task_done (snd (snd (close (init Fifo 0 None :: nat queue)))) True
     = (Raised ClosedQueue, [], snd (snd (close (init Fifo 0 None :: nat queue))))"
proof -
  let ?q1 = "snd (run [SyncPutNowait 7 True] (init Fifo 0 None :: nat queue))"
  let ?q0 = "snd (run [SyncPutNowait 7 True, SyncTaskDone True] (init Fifo 0 None :: nat queue))"
  let ?qc = "snd (snd (close (init Fifo 0 None :: nat queue)))"
  have h1: "\<not> closing ?q1 \<and> 0 \<le> unfinished_tasks ?q1" "unfinished_tasks ?q1 \<noteq> 0"
    "unfinished_tasks ?q1 - 1 = 0" by code_simp+
  have h0: "\<not> closing ?q0 \<and> 0 \<le> unfinished_tasks ?q0" "unfinished_tasks ?q0 = 0" by code_simp+
  have hc: "closing ?qc" by code_simp
  from task_done_counts_down [where q = ?q1 and acc = True] h1
  have a: "fst (sync_task_done ?q1 True) = Returned ()"
    "unfinished_tasks (snd (snd (sync_task_done ?q1 True))) = 0" by simp_all
  from task_done_counts_down [where q = ?q0] h0
  have b: "fst (async_task_done ?q0) = Raised TooManyCompletions" by blast
  from task_done_counts_down [where q = ?qc and acc = True] hc
  have c: "sync_task_done ?qc True = (Raised ClosedQueue, [], ?qc)" by blast
  from a b c show ?thesis by blast
qed

text \<open>
  The claim as worded, for every state, fails on a closed queue: \<open>unfinished_tasks\<close> is
  0 there and \<open>task_done\<close> raises \<open>ClosedQueue\<close>, not \<open>TooManyCompletions\<close>.
\<close>

theorem task_done_on_closed_queue_counterexample:
  "\<not> (fst (sync_task_done (snd (snd (close (init Fifo 0 None :: nat queue)))) True)
         = Raised TooManyCompletions
       \<longleftrightarrow> unfinished_tasks (snd (snd (close (init Fifo 0 None :: nat queue)))) = 0)"
  by code_simp

text \<open>
  Claim C10. A get of either facade that returns (blocking, woken, suspending or
  non-blocking) takes exactly one item out of the buffer, the one it returns, and leaves
  \<open>unfinished_tasks\<close>, the finished event, \<open>maxsize\<close> and the closing flag as they
  were. A put that returns adds its item to the buffer, adds one to \<open>unfinished_tasks\<close>,
  clears the finished event, and leaves \<open>maxsize\<close> and the closing flag as they were.
\<close>

theorem frame_of_get_and_put:
  assumes "step c q = (Returned v, effs, q1)"
  shows "(is_get c \<longrightarrow>
            (\<exists>y. v = VItem y \<and> mset (items q) = add_mset y (mset (items q1))) \<and>
            length (items q1) + 1 = length (items q) \<and>
            unfinished_tasks q1 = unfinished_tasks q \<and> finished q1 = finished q \<and>
            maxsize q1 = maxsize q \<and> closing q1 = closing q) \<and>
         (put_item c \<noteq> None \<longrightarrow>
            mset (items q1) = add_mset (the (put_item c)) (mset (items q)) \<and>
            unfinished_tasks q1 = unfinished_tasks q + 1 \<and> \<not> finished q1 \<and>
            maxsize q1 = maxsize q \<and> closing q1 = closing q)"
proof (intro conjI impI)
  assume "is_get c"
  from get_returned[OF assms this] obtain y where y: "v = VItem y" "commits_get q y q1" by blast
  then obtain q0 q' where g: "items q0 = items q" "q_get q0 = Inr (y, q')" "items q1 = items q'"
    by (auto simp: commits_get_def)
  from mset_q_get[OF g(2)] have m: "mset (items q) = add_mset y (mset (items q1))"
    by (simp add: g)
  then show "\<exists>y. v = VItem y \<and> mset (items q) = add_mset y (mset (items q1))"
    using y by blast
  from m have "size (mset (items q)) = size (add_mset y (mset (items q1)))" by simp
  then show "length (items q1) + 1 = length (items q)" by simp
  from y(2) show "unfinished_tasks q1 = unfinished_tasks q" "finished q1 = finished q"
    "maxsize q1 = maxsize q" "closing q1 = closing q"
    by (simp_all add: commits_get_def)
next
  assume "put_item c \<noteq> None"
  then obtain x where x: "put_item c = Some x" by auto
  from put_returned[OF assms x] have p: "commits_put q x q1" .
  then obtain q0 where g: "items q0 = items q" "items q1 = items (q_put q0 x)"
    by (auto simp: commits_put_def)
  show "mset (items q1) = add_mset (the (put_item c)) (mset (items q))"
    by (simp add: x g mset_q_put)
  from p show "unfinished_tasks q1 = unfinished_tasks q + 1" "\<not> finished q1"
    "maxsize q1 = maxsize q" "closing q1 = closing q"
    by (simp_all add: commits_put_def)
qed

theorem frame_of_get_and_put_witness:
  "mset (items (snd (run [SyncPutNowait 7 True] (init Prio 0 None :: nat queue))))
     = add_mset 7 (mset (items (snd (snd (step (SyncGetNowait True)
         (snd (run [SyncPutNowait 7 True] (init Prio 0 None :: nat queue)))))))) \<and>
   unfinished_tasks (snd (snd (step (SyncGetNowait True)
         (snd (run [SyncPutNowait 7 True] (init Prio 0 None :: nat queue))))))
     = unfinished_tasks (snd (run [SyncPutNowait 7 True] (init Prio 0 None :: nat queue))) \<and>
   unfinished_tasks (snd (snd (step (AsyncPutNowait 8 (Some 0))
         (snd (run [SyncPutNowait 7 True] (init Prio 0 None :: nat queue))))))
     = unfinished_tasks (snd (run [SyncPutNowait 7 True] (init Prio 0 None :: nat queue))) + 1"
proof -
  let ?q = "snd (run [SyncPutNowait 7 True] (init Prio 0 None :: nat queue))"
  let ?g = "SyncGetNowait True :: nat call"
  let ?p = "AsyncPutNowait 8 (Some 0) :: nat call"
  have g: "step ?g ?q = (Returned (VItem 7), [], snd (snd (step ?g ?q)))" "is_get ?g"
    by code_simp+
  have p: "step ?p ?q = (Returned VNone, [], snd (snd (step ?p ?q)))" "put_item ?p \<noteq> None"
    by code_simp+
  from frame_of_get_and_put [OF g(1)] g(2)
  have a: "mset (items ?q) = add_mset 7 (mset (items (snd (snd (step ?g ?q)))))"
    "unfinished_tasks (snd (snd (step ?g ?q))) = unfinished_tasks ?q"
    by auto
  from frame_of_get_and_put [OF p(1)] p(2)
  have b: "unfinished_tasks (snd (snd (step ?p ?q))) = unfinished_tasks ?q + 1"
    by blast
  from a b show ?thesis by blast
qed

section \<open>Closing\<close>

lemma operation_on_closing:
  "is_operation c \<Longrightarrow> closing q \<Longrightarrow> step c q = (Raised ClosedQueue, [], q)"
  by (cases c)
     (simp_all add: is_operation_def reply_def check_closing_def sync_put_def sync_put_nowait_def
        sync_get_def sync_get_nowait_def sync_task_done_def sync_join_def async_put_def
        async_put_nowait_def async_get_def async_get_nowait_def async_task_done_def
        async_join_def)

lemma query_answers: "is_query c \<Longrightarrow> \<exists>v. step c q = (Returned v, [], q)"
  by (cases c) (simp_all add: is_query_def answer_def)

lemma shutdown_on_closing:
  "is_shutdown c \<Longrightarrow> closing q \<Longrightarrow> fst (step c q) \<noteq> Raised ClosedQueue"
  by (cases c)
     (simp_all add: is_shutdown_def reply_def close_def wait_closed_def aclose_def)

lemma step_closing:
  assumes "step c q = (out, effs, q1)" "closing q"
  shows "closing q1"
  using step_kind[OF assms(1)] assms(2) unfolding kind_def
  by (auto simp: quiet_def commits_put_def commits_get_def)

lemma run_closing: "closing q \<Longrightarrow> closing (snd (run cs q))"
proof (induction cs arbitrary: q)
  case Nil
  then show ?case by simp
next
  case (Cons c cs)
  obtain out effs q1 where st: "step c q = (out, effs, q1)" by (cases "step c q")
  from Cons.IH[OF step_closing[OF st Cons.prems]]
  show ?case by (simp only: snd_run_Cons st snd_conv)
qed

text \<open>
  Claim C4, as amended. \<open>close\<close> sets the closing flag, and no later call clears it.
  While it is set, every call of \<open>put\<close>, \<open>get\<close>, \<open>put_nowait\<close>, \<open>get_nowait\<close>,
  \<open>task_done\<close> and \<open>join\<close> on either facade raises \<open>ClosedQueue\<close> and changes
  nothing; \<open>close\<close>, \<open>wait_closed\<close> and \<open>aclose\<close> do not raise it; and the size and
  capacity queries of both facades (\<open>qsize\<close>, \<open>empty\<close>, \<open>full\<close>, \<open>maxsize\<close>,
  \<open>unfinished_tasks\<close>, \<open>closed\<close>) still return their values.
\<close>

theorem closing_queue_refuses_operations:
  "closing (snd (snd (close (q0 :: 'a::linorder queue)))) \<and>
   (closing (q :: 'a queue) \<longrightarrow>
      closing (snd (run cs q)) \<and>
      (is_operation c \<longrightarrow> step c q = (Raised ClosedQueue, [], q)) \<and>
      (is_query c \<longrightarrow> (\<exists>v. step c q = (Returned v, [], q))) \<and>
      (is_shutdown c \<longrightarrow> fst (step c q) \<noteq> Raised ClosedQueue))"
  by (auto simp: close_def run_closing operation_on_closing shutdown_on_closing
      dest: query_answers[of c q])

theorem closing_queue_refuses_operations_witness:
  "step (AsyncPutNowait 4 (Some 0)) (snd (snd (close (init Lifo 3 None :: nat queue))))
     = (Raised ClosedQueue, [], snd (snd (close (init Lifo 3 None :: nat queue)))) \<and>
   (\<exists>v. step SyncFull (snd (snd (close (init Lifo 3 None :: nat queue))))
     = (Returned v, [], snd (snd (close (init Lifo 3 None :: nat queue))))) \<and>
   fst (step WaitClosed (snd (snd (close (init Lifo 3 None :: nat queue))))) \<noteq> Raised ClosedQueue"
proof -
  let ?q = "snd (snd (close (init Lifo 3 None :: nat queue)))"
  have h: "closing ?q" by code_simp
  have o: "is_operation (AsyncPutNowait 4 (Some 0) :: nat call)" by code_simp
  have g: "is_query (SyncFull :: nat call)" by code_simp
  have s: "is_shutdown (WaitClosed :: nat call)" by code_simp
  from closing_queue_refuses_operations [where q = ?q and c = "AsyncPutNowait 4 (Some 0)"] h o
  have 1: "step (AsyncPutNowait 4 (Some 0)) ?q = (Raised ClosedQueue, [], ?q)" by blast
  from closing_queue_refuses_operations [where q = ?q and c = SyncFull] h g
  have 2: "\<exists>v. step SyncFull ?q = (Returned v, [], ?q)" by blast
  from closing_queue_refuses_operations [where q = ?q and c = WaitClosed] h s
  have 3: "fst (step WaitClosed ?q) \<noteq> Raised ClosedQueue" by blast
  from 1 2 3 show ?thesis by blast
qed

text \<open>
  The claim as worded has the queries fail too; on a closed queue \<open>qsize\<close> of the
  blocking facade and \<open>maxsize\<close> of the suspending facade return 0.
\<close>

theorem queries_on_closed_queue_counterexample:
  "step SyncQsize (snd (snd (close (init Fifo 0 None :: nat queue))))
     = (Returned (VInt 0), [], snd (snd (close (init Fifo 0 None :: nat queue)))) \<and>
   step AsyncMaxsize (snd (snd (close (init Fifo 0 None :: nat queue))))
     = (Returned (VInt 0), [], snd (snd (close (init Fifo 0 None :: nat queue))))"
  by code_simp

text \<open>
  Claim C6, as amended. On a queue that is not closing, \<open>get\<close> of the blocking facade
  with \<open>block=True\<close> and a negative timeout raises \<open>InvalidTimeout\<close>, whatever the
  capacity and the buffer; \<open>put\<close> does so when \<open>maxsize > 0\<close>; on an unbounded queue
  (\<open>maxsize <= 0\<close>) \<open>put\<close> never looks at the timeout and commits the item.
\<close>

theorem negative_timeout_is_refused:
  "\<not> closing (q :: 'a::linorder queue) \<and> t < 0 \<longrightarrow>
     sync_get q True (Some t) t0 now tmax acc = (Raised InvalidTimeout, [], q) \<and>
     (0 < maxsize q \<longrightarrow>
        sync_put q x True (Some t) t0 now tmax acc = (Raised InvalidTimeout, [], q)) \<and>
     (maxsize q \<le> 0 \<longrightarrow>
        fst (sync_put q x True (Some t) t0 now tmax acc) = Returned () \<and>
        snd (snd (sync_put q x True (Some t) t0 now tmax acc)) = put_internal q x)"
  by (simp add: sync_get_def sync_put_def check_closing_def sync_put_commit_eq)

theorem negative_timeout_is_refused_witness:
  "sync_get (init Prio 0 None :: nat queue) True (Some (- 1)) 0 0 9223372036 True
     = (Raised InvalidTimeout, [], init Prio 0 None) \<and>
   sync_put (init Prio 2 None :: nat queue) 5 True (Some (- 1)) 0 0 9223372036 True
     = (Raised InvalidTimeout, [], init Prio 2 None) \<and>
   fst (sync_put (init Prio 0 None :: nat queue) 5 True (Some (- 1)) 0 0 9223372036 True) = Returned ()"
proof -
  have h: "\<not> closing (init Prio 0 None :: nat queue) \<and> (- 1 :: real) < 0"
    "\<not> closing (init Prio 2 None :: nat queue) \<and> (- 1 :: real) < 0"
    "maxsize (init Prio 0 None :: nat queue) \<le> 0" "0 < maxsize (init Prio 2 None :: nat queue)"
    by (simp_all add: init_def)
  from negative_timeout_is_refused [where q = "init Prio 0 None :: nat queue" and t = "- 1"
      and ?t0.0 = 0 and now = 0 and acc = True and x = 5] h
  have a: "sync_get (init Prio 0 None :: nat queue) True (Some (- 1)) 0 0 9223372036 True
     = (Raised InvalidTimeout, [], init Prio 0 None)"
    "fst (sync_put (init Prio 0 None :: nat queue) 5 True (Some (- 1)) 0 0 9223372036 True) = Returned ()"
    by blast+
  from negative_timeout_is_refused [where q = "init Prio 2 None :: nat queue" and t = "- 1"
      and ?t0.0 = 0 and now = 0 and acc = True and x = 5] h
  have b: "sync_put (init Prio 2 None :: nat queue) 5 True (Some (- 1)) 0 0 9223372036 True
     = (Raised InvalidTimeout, [], init Prio 2 None)"
    by blast
  from a b show ?thesis by blast
qed

text \<open>
  The claim as worded, regardless of \<open>maxsize\<close>, fails on an unbounded queue:
  \<open>put(5, True, -1)\<close> returns and the item is in the buffer.
\<close>

theorem negative_timeout_unbounded_put_counterexample:
  "fst (sync_put (init Fifo 0 None :: nat queue) 5 True (Some (- 1)) 0 0 9223372036 True) = Returned () \<and>
   items (snd (snd (sync_put (init Fifo 0 None :: nat queue) 5 True (Some (- 1)) 0 0 9223372036 True))) = [5]"
  by (simp add: sync_put_def check_closing_def sync_put_commit_eq init_def put_internal_def
      q_put_def)

text \<open>
  Claim C8. A second \<open>close\<close> leaves the queue exactly as the first one left it, with
  the closing flag and the finished event set, and returns and notifies as the first.
\<close>

theorem close_is_idempotent:
  "snd (snd (close (snd (snd (close q))))) = snd (snd (close q)) \<and>
   fst (close (snd (snd (close q)))) = fst (close q) \<and>
   fst (snd (close (snd (snd (close q))))) = fst (snd (close q)) \<and>
   closing (snd (snd (close q))) \<and> finished (snd (snd (close q))) \<and>
   closing (snd (snd (close (snd (snd (close q)))))) \<and>
   finished (snd (snd (close (snd (snd (close q))))))"
  by (simp add: close_def comp_def)


theorem close_is_idempotent_witness:
  "snd (snd (close (snd (snd (close (init Fifo 0 None :: nat queue))))))
     = snd (snd (close (init Fifo 0 None :: nat queue))) \<and>
   closing (snd (snd (close (init Fifo 0 None :: nat queue))))"
  using close_is_idempotent [of "init Fifo 0 None :: nat queue"] by blast

text \<open>
  Claim C9. The property \<open>closed\<close>, of the queue and of both facades, is true exactly
  when the closing flag is set and no notification job is pending; so after \<open>close\<close> on a
  queue with a pending job, the closing flag is set and \<open>closed\<close> is false.
\<close>

theorem closed_needs_no_pending_job:
  "(closed q \<longleftrightarrow> closing q \<and> pending q = []) \<and>
   sync_closed q = closed q \<and> async_closed q = closed q \<and>
   (pending q \<noteq> [] \<longrightarrow>
      closing (snd (snd (close q))) \<and> \<not> closed (snd (snd (close q))))"
  by (simp add: closed_def sync_closed_def async_closed_def close_def)

theorem closed_needs_no_pending_job_witness:
  "pending (snd (snd (async_put_nowait
       (snd (snd (sync_get (init Fifo 0 None :: nat queue) True None 0 0 9223372036 True))) 1 (Some 0))))
     = [\<lparr>notifier = SyncNotEmptyNotifier, cancelled = False\<rparr>] \<and>
   closing (snd (snd (close (snd (snd (async_put_nowait
       (snd (snd (sync_get (init Fifo 0 None :: nat queue) True None 0 0 9223372036 True))) 1 (Some 0))))))) \<and>
   \<not> closed (snd (snd (close (snd (snd (async_put_nowait
       (snd (snd (sync_get (init Fifo 0 None :: nat queue) True None 0 0 9223372036 True))) 1 (Some 0)))))))"
proof -
  let ?q = "snd (snd (async_put_nowait
       (snd (snd (sync_get (init Fifo 0 None :: nat queue) True None 0 0 9223372036 True))) 1 (Some 0)))"
  have p: "pending ?q = [\<lparr>notifier = SyncNotEmptyNotifier, cancelled = False\<rparr>]"
    by code_simp
  then have h: "pending ?q \<noteq> []" by simp
  from closed_needs_no_pending_job [of ?q] h
  have "closing (snd (snd (close ?q))) \<and> \<not> closed (snd (snd (close ?q)))" by blast
  with p show ?thesis by blast
qed

section \<open>Full puts and notifications\<close>

lemma sync_put_wait_full:
  "sync_put_wait q x endtime now tmax acc = (Raised SyncQueueFull, effs, q1) \<Longrightarrow> q1 = q \<and> effs = []"
  by (auto simp: sync_put_wait_def sync_put_commit_eq Let_def split: if_splits option.splits)

lemma sync_put_full:
  "sync_put q x block timeout t0 now tmax acc = (Raised SyncQueueFull, effs, q1) \<Longrightarrow> q1 = q \<and> effs = []"
  by (auto simp: sync_put_def check_closing_def sync_put_commit_eq Let_def
      split: if_splits option.splits dest: sync_put_wait_full)

lemma sync_put_wait_blocked:
  "sync_put_wait q x endtime now tmax acc = (Blocked, effs, q1) \<Longrightarrow>
     q1 = q\<lparr>sync_not_full_waiting := sync_not_full_waiting q + 1\<rparr> \<and> effs = []"
  by (auto simp: sync_put_wait_def sync_put_commit_eq Let_def split: if_splits option.splits)

lemma sync_put_blocked:
  "sync_put q x block timeout t0 now tmax acc = (Blocked, effs, q1) \<Longrightarrow>
     q1 = q\<lparr>sync_not_full_waiting := sync_not_full_waiting q + 1\<rparr> \<and> effs = []"
  by (auto simp: sync_put_def check_closing_def sync_put_commit_eq Let_def
      split: if_splits option.splits dest: sync_put_wait_blocked)

lemma sync_put_wake_blocked_state:
  "sync_put_wake (q\<lparr>sync_not_full_waiting := sync_not_full_waiting q + 1\<rparr>) x endtime now tmax acc
     = sync_put_wait q x endtime now tmax acc"
  by (simp add: sync_put_wake_def)

lemma sync_put_resume_full:
  "sync_put_resume (q\<lparr>sync_not_full_waiting := sync_not_full_waiting q + 1\<rparr>) x endtime tmax ts acc
     = (Raised SyncQueueFull, effs, q1) \<Longrightarrow> q1 = q \<and> effs = []"
proof (induction ts)
  case Nil
  then show ?case by simp
next
  case (Cons now ts)
  obtain out e q2 where w: "sync_put_wait q x endtime now tmax acc = (out, e, q2)"
    by (cases "sync_put_wait q x endtime now tmax acc")
  show ?case
  proof (cases out)
    case Blocked
    with w sync_put_wait_blocked[of q x endtime now tmax acc e q2] Cons show ?thesis
      by (simp add: sync_put_wake_blocked_state)
  next
    case (Raised err)
    with w Cons.prems sync_put_wait_full[of q x endtime now tmax acc e q2] show ?thesis
      by (auto simp: sync_put_wake_blocked_state)
  next
    case (Returned u)
    with w Cons.prems show ?thesis by (simp add: sync_put_wake_blocked_state)
  qed
qed

lemma sync_put_alone_full:
  assumes "sync_put_alone q x block timeout t0 now tmax ts acc = (Raised SyncQueueFull, effs, q1)"
  shows "q1 = q \<and> effs = []"
proof -
  obtain out e q2 where w: "sync_put q x block timeout t0 now tmax acc = (out, e, q2)"
    by (cases "sync_put q x block timeout t0 now tmax acc")
  show ?thesis
  proof (cases out)
    case Blocked
    with w sync_put_blocked[of q x block timeout t0 now tmax acc e q2] assms show ?thesis
      by (auto simp: sync_put_alone_def dest: sync_put_resume_full)
  next
    case (Raised err)
    with w assms sync_put_full[of q x block timeout t0 now tmax acc e q2] show ?thesis
      by (auto simp: sync_put_alone_def)
  next
    case (Returned u)
    with w assms show ?thesis by (simp add: sync_put_alone_def)
  qed
qed

lemma async_put_nowait_full:
  assumes "async_put_nowait q x running = (Raised AsyncQueueFull, effs, q1)"
  shows "q1 = q\<lparr>loop := running\<rparr> \<and> effs = []"
proof -
  from assms have nc: "\<not> closing q"
    by (auto simp: async_put_nowait_def check_closing_def)
  show ?thesis
  proof (cases "get_loop q running")
    case (Inl e)
    then show ?thesis using assms nc
      by (auto simp: async_put_nowait_def check_closing_def get_loop_def Let_def
          split: option.splits if_splits)
  next
    case (Inr p)
    then obtain l where gl: "get_loop q running = Inr (l, q\<lparr>loop := Some l\<rparr>)"
      using get_loop_Inr by (cases p) fastforce
    then have r: "running = Some l" by (auto simp: get_loop_def Let_def split: option.splits if_splits)
    show ?thesis using assms[unfolded async_put_nowait_eq[OF nc gl]] r
      by (auto split: if_splits)
  qed
qed

lemma sync_put_resume_deadline:
  assumes "0 < maxsize q" "maxsize q \<le> qsize q" "\<exists>ti \<in> set ts. e \<le> ti"
    "\<forall>ti \<in> set ts. e - ti \<le> tmax"
  shows "sync_put_resume (q\<lparr>sync_not_full_waiting := sync_not_full_waiting q + 1\<rparr>)
           x (Some e) tmax ts acc = (Raised SyncQueueFull, [], q)"
  using assms(3,4)
proof (induction ts)
  case Nil
  then show ?case by simp
next
  case (Cons now ts)
  show ?case
  proof (cases "e \<le> now")
    case True
    then show ?thesis using assms(1,2)
      by (simp add: sync_put_wake_blocked_state sync_put_wait_def)
  next
    case False
    with Cons have "sync_put_resume (q\<lparr>sync_not_full_waiting := sync_not_full_waiting q + 1\<rparr>)
           x (Some e) tmax ts acc = (Raised SyncQueueFull, [], q)" by auto
    moreover have "\<not> tmax < e - now" using Cons.prems(2) by auto
    ultimately show ?thesis using False assms(1,2)
      by (simp add: sync_put_wake_blocked_state sync_put_wait_def)
  qed
qed

lemma sync_put_alone_deadline:
  assumes "\<not> closing q" "0 < maxsize q" "maxsize q \<le> qsize q" "0 \<le> t" "t \<le> tmax"
    "\<forall>ti \<in> set (now # ts). t0 \<le> ti" "\<exists>ti \<in> set (now # ts). t0 + t \<le> ti"
  shows "sync_put_alone q x True (Some t) t0 now tmax ts acc = (Raised SyncQueueFull, [], q)"
proof -
  have le: "\<forall>ti \<in> set (now # ts). t0 + t - ti \<le> tmax" using assms(5,6) by auto
  show ?thesis
  proof (cases "t0 + t \<le> now")
    case True
    then show ?thesis using assms(1-4)
      by (simp add: sync_put_alone_def sync_put_def check_closing_def sync_put_wait_def)
  next
    case False
    with assms(7) have ex: "\<exists>ti \<in> set ts. t0 + t \<le> ti" by auto
    from le have all: "\<forall>ti \<in> set ts. t0 + t - ti \<le> tmax" and n: "\<not> tmax < t0 + t - now"
      by auto
    from sync_put_resume_deadline[OF assms(2,3) ex all, of x acc] False n assms(1-4)
    show ?thesis
      by (simp add: sync_put_alone_def sync_put_def check_closing_def sync_put_wait_def)
  qed
qed

lemma sync_put_alone_overflow:
  assumes "\<not> closing q" "0 < maxsize q" "maxsize q \<le> qsize q" "0 \<le> t" "0 \<le> tmax"
    "tmax < t0 + t - now"
  shows "sync_put_alone q x True (Some t) t0 now tmax ts acc = (Raised OverflowError, [], q)"
  using assms
  by (simp add: sync_put_alone_def sync_put_def check_closing_def sync_put_wait_def)

lemma async_put_nowait_full_bound:
  assumes "async_put_nowait q x running = (Raised AsyncQueueFull, effs, q1)" "loop q \<noteq> None"
  shows "q1 = q"
proof -
  from assms(1) have nc: "\<not> closing q"
    by (auto simp: async_put_nowait_def check_closing_def)
  from assms(1) nc obtain l q0 where gl: "get_loop q running = Inr (l, q0)"
    by (cases "get_loop q running")
       (auto simp: async_put_nowait_def check_closing_def get_loop_def Let_def
          split: option.splits if_splits)
  then have "loop q = Some l" using assms(2)
    by (auto simp: get_loop_def Let_def split: option.splits if_splits)
  then have "q\<lparr>loop := Some l\<rparr> = q" by (metis queue.surjective queue.update_convs(1))
  with get_loop_Inr[OF gl] have "q0 = q" by simp
  with assms(1)[unfolded async_put_nowait_eq[OF nc gl]] show ?thesis
    by (auto split: if_splits)
qed

lemma two_puts:
  "snd (run [SyncPut a True None t1 t2 tmax acc, SyncPut b True None t3 t4 tmax acc]
          (init Fifo 2 r0))
     = (init Fifo 2 r0)\<lparr>items := [a, b], unfinished_tasks := 2, finished := False\<rparr>"
  by (simp add: reply_def sync_put_def check_closing_def sync_put_wait_def sync_put_commit_eq
      put_internal_def q_put_def init_def qsize_def call_soon_threadsafe_def)

text \<open>
  Claim C7, as amended. A put that raises the full error leaves the buffer,
  \<open>unfinished_tasks\<close>, the finished event, the flags, the waiter counts and the pending
  jobs as they were. On the blocking facade, at once or after waiting (a whole call with
  no other call in between), the queue is unchanged in every field. \<open>put_nowait\<close> of the
  suspending facade has bound the queue to the caller's loop if no loop was bound before,
  and has changed nothing if one was. In the scenario, on a FIFO queue with
  \<open>maxsize = 2\<close> after \<open>put(a)\<close> and \<open>put(b)\<close>, a \<open>put(c, timeout=t)\<close> with
  \<open>0 \<le> t \<le> threading.TIMEOUT_MAX\<close> raises \<open>Full\<close> once a reading of the monotonic
  clock at the head of its loop has reached the deadline; the buffer is still \<open>[a, b]\<close>
  and \<open>unfinished_tasks\<close> is still 2. When the time left at the head of the loop is
  above \<open>threading.TIMEOUT_MAX\<close>, the call raises \<open>OverflowError\<close> instead, with the
  queue unchanged.
\<close>

theorem full_put_changes_nothing:
  "(sync_put (q :: 'a::linorder queue) x block timeout t0 now tmax acc
      = (Raised SyncQueueFull, effs, q1) \<longrightarrow> q1 = q \<and> effs = []) \<and>
   (sync_put_nowait q x acc = (Raised SyncQueueFull, effs, q1) \<longrightarrow> q1 = q \<and> effs = []) \<and>
   (sync_put_alone q x block timeout t0 now tmax ts acc = (Raised SyncQueueFull, effs, q1)
      \<longrightarrow> q1 = q \<and> effs = []) \<and>
   (async_put_nowait q x running = (Raised AsyncQueueFull, effs, q1)
      \<longrightarrow> q1 = q\<lparr>loop := running\<rparr> \<and> effs = [] \<and> (loop q \<noteq> None \<longrightarrow> q1 = q)) \<and>
   (0 \<le> t \<and> t \<le> tmax \<and> (\<forall>ti \<in> set (now # ts). t0 \<le> ti) \<and>
    (\<exists>ti \<in> set (now # ts). t0 + t \<le> ti) \<longrightarrow>
      sync_put_alone
        (snd (run [SyncPut a True None t1 t2 tmax acc, SyncPut b True None t3 t4 tmax acc]
                (init Fifo 2 r0)))
        (c :: 'a) True (Some t) t0 now tmax ts acc
      = (Raised SyncQueueFull, [],
         snd (run [SyncPut a True None t1 t2 tmax acc, SyncPut b True None t3 t4 tmax acc]
                (init Fifo 2 r0))) \<and>
      items (snd (run [SyncPut a True None t1 t2 tmax acc, SyncPut b True None t3 t4 tmax acc]
                (init Fifo 2 r0 :: 'a queue))) = [a, b] \<and>
      unfinished_tasks
        (snd (run [SyncPut a True None t1 t2 tmax acc, SyncPut b True None t3 t4 tmax acc]
                (init Fifo 2 r0 :: 'a queue))) = 2) \<and>
   (0 \<le> t \<and> 0 \<le> tmax \<and> tmax < t0 + t - now \<longrightarrow>
      sync_put_alone
        (snd (run [SyncPut a True None t1 t2 tmax acc, SyncPut b True None t3 t4 tmax acc]
                (init Fifo 2 r0)))
        (c :: 'a) True (Some t) t0 now tmax ts acc
      = (Raised OverflowError, [],
         snd (run [SyncPut a True None t1 t2 tmax acc, SyncPut b True None t3 t4 tmax acc]
                (init Fifo 2 r0))))"
proof -
  have 1: "sync_put q x block timeout t0 now tmax acc = (Raised SyncQueueFull, effs, q1)
      \<longrightarrow> q1 = q \<and> effs = []"
    using sync_put_full by blast
  have 2: "sync_put_nowait q x acc = (Raised SyncQueueFull, effs, q1) \<longrightarrow> q1 = q \<and> effs = []"
    unfolding sync_put_nowait_def using sync_put_full by blast
  have 3: "sync_put_alone q x block timeout t0 now tmax ts acc = (Raised SyncQueueFull, effs, q1)
      \<longrightarrow> q1 = q \<and> effs = []"
    using sync_put_alone_full by blast
  have 4: "async_put_nowait q x running = (Raised AsyncQueueFull, effs, q1)
      \<longrightarrow> q1 = q\<lparr>loop := running\<rparr> \<and> effs = [] \<and> (loop q \<noteq> None \<longrightarrow> q1 = q)"
    using async_put_nowait_full async_put_nowait_full_bound by blast
  let ?q = "snd (run [SyncPut a True None t1 t2 tmax acc, SyncPut b True None t3 t4 tmax acc]
                (init Fifo 2 r0 :: 'a queue))"
  have q: "?q = (init Fifo 2 r0)\<lparr>items := [a, b], unfinished_tasks := 2, finished := False\<rparr>"
    by (rule two_puts)
  have i: "items ?q = [a, b]" "unfinished_tasks ?q = 2" unfolding q by simp_all
  have f: "\<not> closing ?q" "0 < maxsize ?q" "maxsize ?q \<le> qsize ?q"
    unfolding q by (simp_all add: init_def qsize_def)
  have 5: "0 \<le> t \<and> t \<le> tmax \<and> (\<forall>ti \<in> set (now # ts). t0 \<le> ti) \<and>
      (\<exists>ti \<in> set (now # ts). t0 + t \<le> ti) \<longrightarrow>
      sync_put_alone ?q c True (Some t) t0 now tmax ts acc = (Raised SyncQueueFull, [], ?q) \<and>
      items ?q = [a, b] \<and> unfinished_tasks ?q = 2"
    using sync_put_alone_deadline[OF f, of t tmax now ts t0 c acc] i by blast
  have 6: "0 \<le> t \<and> 0 \<le> tmax \<and> tmax < t0 + t - now \<longrightarrow>
      sync_put_alone ?q c True (Some t) t0 now tmax ts acc = (Raised OverflowError, [], ?q)"
    using sync_put_alone_overflow[OF f, of t tmax t0 now c ts acc] by blast
  show ?thesis by (intro conjI 1 2 3 4 5 6)
qed

theorem full_put_changes_nothing_witness:
  "sync_put_alone
     (snd (run [SyncPut 10 True None 0 0 9223372036 True, SyncPut 20 True None 0 0 9223372036 True]
             (init Fifo 2 None :: nat queue)))
     30 True (Some 1) 5 5 9223372036 [11/2, 6] True
   = (Raised SyncQueueFull, [],
      snd (run [SyncPut 10 True None 0 0 9223372036 True, SyncPut 20 True None 0 0 9223372036 True]
             (init Fifo 2 None :: nat queue))) \<and>
   items (snd (run [SyncPut 10 True None 0 0 9223372036 True,
                    SyncPut 20 True None 0 0 9223372036 True]
             (init Fifo 2 None :: nat queue))) = [10, 20] \<and>
   unfinished_tasks (snd (run [SyncPut 10 True None 0 0 9223372036 True,
                               SyncPut 20 True None 0 0 9223372036 True]
             (init Fifo 2 None :: nat queue))) = 2 \<and>
   sync_put_alone
     (snd (run [SyncPut 10 True None 0 0 9223372036 True, SyncPut 20 True None 0 0 9223372036 True]
             (init Fifo 2 None :: nat queue)))
     30 True (Some 10000000000) 5 5 9223372036 [] True
   = (Raised OverflowError, [],
      snd (run [SyncPut 10 True None 0 0 9223372036 True, SyncPut 20 True None 0 0 9223372036 True]
             (init Fifo 2 None :: nat queue)))"
proof -
  have h: "(0::real) \<le> 1 \<and> (1::real) \<le> 9223372036 \<and>
      (\<forall>ti \<in> set [5, 11/2, 6 :: real]. 5 \<le> ti) \<and>
      (\<exists>ti \<in> set [5, 11/2, 6 :: real]. 5 + 1 \<le> ti)"
    by (auto intro: bexI[of _ 6])
  have ov: "(0::real) \<le> 10000000000 \<and> (0::real) \<le> 9223372036 \<and>
      (9223372036::real) < 5 + 10000000000 - 5"
    by simp
  from full_put_changes_nothing
         [where t = 1 and now = 5 and ts = "[11/2, 6]" and ?t0.0 = 5 and tmax = 9223372036
            and a = "10::nat" and b = 20 and c = 30 and ?t1.0 = 0 and ?t2.0 = 0 and ?t3.0 = 0
            and ?t4.0 = 0 and acc = True and ?r0.0 = None] h
  have 1: "sync_put_alone
     (snd (run [SyncPut 10 True None 0 0 9223372036 True, SyncPut 20 True None 0 0 9223372036 True]
             (init Fifo 2 None :: nat queue)))
     30 True (Some 1) 5 5 9223372036 [11/2, 6] True
   = (Raised SyncQueueFull, [],
      snd (run [SyncPut 10 True None 0 0 9223372036 True, SyncPut 20 True None 0 0 9223372036 True]
             (init Fifo 2 None :: nat queue))) \<and>
   items (snd (run [SyncPut 10 True None 0 0 9223372036 True,
                    SyncPut 20 True None 0 0 9223372036 True]
             (init Fifo 2 None :: nat queue))) = [10, 20] \<and>
   unfinished_tasks (snd (run [SyncPut 10 True None 0 0 9223372036 True,
                               SyncPut 20 True None 0 0 9223372036 True]
             (init Fifo 2 None :: nat queue))) = 2"
    by blast
  from full_put_changes_nothing
         [where t = 10000000000 and now = 5 and ts = "[]" and ?t0.0 = 5 and tmax = 9223372036
            and a = "10::nat" and b = 20 and c = 30 and ?t1.0 = 0 and ?t2.0 = 0 and ?t3.0 = 0
            and ?t4.0 = 0 and acc = True and ?r0.0 = None] ov
  have 2: "sync_put_alone
     (snd (run [SyncPut 10 True None 0 0 9223372036 True, SyncPut 20 True None 0 0 9223372036 True]
             (init Fifo 2 None :: nat queue)))
     30 True (Some 10000000000) 5 5 9223372036 [] True
   = (Raised OverflowError, [],
      snd (run [SyncPut 10 True None 0 0 9223372036 True, SyncPut 20 True None 0 0 9223372036 True]
             (init Fifo 2 None :: nat queue)))"
    by blast
  from 1 2 show ?thesis by blast
qed

text \<open>
  The claim as worded fails in two places. On a full queue that no loop is bound to,
  \<open>put_nowait\<close> of the suspending facade raises \<open>QueueFull\<close> and has bound the queue to
  the caller's loop: the same call from another loop then raises \<open>WrongScheduler\<close>,
  where before it raised \<open>QueueFull\<close>. And with \<open>threading.TIMEOUT_MAX = 9223372036\<close>
  a \<open>put(30, timeout=10000000000)\<close> on the full queue raises \<open>OverflowError\<close>, not
  \<open>Full\<close>.
\<close>

theorem failed_put_binds_the_loop_counterexample:
  "fst (async_put_nowait
     (snd (run [SyncPut 10 True None 0 0 9223372036 True, SyncPut 20 True None 0 0 9223372036 True]
             (init Fifo 2 None :: nat queue))) 30 (Some 0)) = Raised AsyncQueueFull \<and>
   snd (snd (async_put_nowait
     (snd (run [SyncPut 10 True None 0 0 9223372036 True, SyncPut 20 True None 0 0 9223372036 True]
             (init Fifo 2 None :: nat queue))) 30 (Some 0)))
     \<noteq> snd (run [SyncPut 10 True None 0 0 9223372036 True,
                  SyncPut 20 True None 0 0 9223372036 True] (init Fifo 2 None :: nat queue)) \<and>
   fst (async_put_nowait
     (snd (run [SyncPut 10 True None 0 0 9223372036 True, SyncPut 20 True None 0 0 9223372036 True]
             (init Fifo 2 None :: nat queue))) 30 (Some 1)) = Raised AsyncQueueFull \<and>
   fst (async_put_nowait
     (snd (snd (async_put_nowait
       (snd (run [SyncPut 10 True None 0 0 9223372036 True,
                  SyncPut 20 True None 0 0 9223372036 True] (init Fifo 2 None :: nat queue)))
       30 (Some 0)))) 30 (Some 1)) = Raised WrongScheduler \<and>
   fst (sync_put_alone
     (snd (run [SyncPut 10 True None 0 0 9223372036 True, SyncPut 20 True None 0 0 9223372036 True]
             (init Fifo 2 None :: nat queue)))
     30 True (Some 10000000000) 0 0 9223372036 [] True) = Raised OverflowError"
  by code_simp

lemma sync_put_effects:
  assumes "sync_put q x block timeout t0 now tmax acc = (Returned u, effs, q1)"
  shows "effs = (if sync_not_empty_waiting q \<noteq> 0 then [Notify SyncNotEmpty] else []) @
                (if async_not_empty_waiting q \<noteq> 0 \<and> loop q \<noteq> None \<and> acc
                 then [CallSoonThreadsafe MakeAsyncNotEmptyNotifier] else []) \<and>
         pending q1 = pending q"
  using assms
  by (auto simp: sync_put_def sync_put_wait_def check_closing_def sync_put_commit_eq
      call_soon_threadsafe_def Let_def split: if_splits option.splits)

lemma sync_put_wake_effects:
  assumes "sync_put_wake q x endtime now tmax acc = (Returned u, effs, q1)"
  shows "effs = (if sync_not_empty_waiting q \<noteq> 0 then [Notify SyncNotEmpty] else []) @
                (if async_not_empty_waiting q \<noteq> 0 \<and> loop q \<noteq> None \<and> acc
                 then [CallSoonThreadsafe MakeAsyncNotEmptyNotifier] else []) \<and>
         pending q1 = pending q"
  using assms
  by (auto simp: sync_put_wake_def sync_put_wait_def sync_put_commit_eq
      call_soon_threadsafe_def Let_def split: if_splits option.splits)

lemma sync_get_commit_effects:
  assumes "sync_get_commit q acc = (Returned y, effs, q1)"
  shows "effs = (if sync_not_full_waiting q \<noteq> 0 then [Notify SyncNotFull] else []) @
                (if async_not_full_waiting q \<noteq> 0 \<and> loop q \<noteq> None \<and> acc
                 then [CallSoonThreadsafe MakeAsyncNotFullNotifier] else []) \<and>
         pending q1 = pending q"
proof (cases "q_get q")
  case (Inl e)
  then show ?thesis using assms by (simp add: sync_get_commit_def)
next
  case (Inr p)
  then obtain z q' where g: "q_get q = Inr (z, q')" by (cases p) auto
  from assms q_get_frame(11)[OF g] show ?thesis
    unfolding sync_get_commit_eq[OF g]
    by (auto simp: call_soon_threadsafe_def)
qed

lemma sync_get_wait_effects:
  assumes "sync_get_wait q endtime now tmax acc = (Returned y, effs, q1)"
  shows "sync_get_commit q acc = (Returned y, effs, q1)"
  using assms by (auto simp: sync_get_wait_def Let_def split: if_splits option.splits)

lemma sync_get_effects:
  assumes "sync_get q block timeout t0 now tmax acc = (Returned y, effs, q1)"
  shows "effs = (if sync_not_full_waiting q \<noteq> 0 then [Notify SyncNotFull] else []) @
                (if async_not_full_waiting q \<noteq> 0 \<and> loop q \<noteq> None \<and> acc
                 then [CallSoonThreadsafe MakeAsyncNotFullNotifier] else []) \<and>
         pending q1 = pending q"
proof -
  from assms have "sync_get_commit q acc = (Returned y, effs, q1)"
    by (auto simp: sync_get_def check_closing_def Let_def
        split: if_splits option.splits dest: sync_get_wait_effects)
  then show ?thesis by (rule sync_get_commit_effects)
qed

lemma sync_get_wake_effects:
  assumes "sync_get_wake q endtime now tmax acc = (Returned y, effs, q1)"
  shows "effs = (if sync_not_full_waiting q \<noteq> 0 then [Notify SyncNotFull] else []) @
                (if async_not_full_waiting q \<noteq> 0 \<and> loop q \<noteq> None \<and> acc
                 then [CallSoonThreadsafe MakeAsyncNotFullNotifier] else []) \<and>
         pending q1 = pending q"
proof -
  let ?q = "q\<lparr>sync_not_empty_waiting := sync_not_empty_waiting q - 1\<rparr>"
  from assms have "sync_get_commit ?q acc = (Returned y, effs, q1)"
    unfolding sync_get_wake_def by (rule sync_get_wait_effects)
  from sync_get_commit_effects[OF this] show ?thesis by simp
qed

lemma async_put_commit_effects:
  assumes "async_put_commit q x = (Returned u, effs, q1)"
  shows "effs = (if async_not_empty_waiting q \<noteq> 0 then [Notify AsyncNotEmpty] else []) \<and>
         pending q1 = pending q @
           (if sync_not_empty_waiting q \<noteq> 0
            then [\<lparr>notifier = SyncNotEmptyNotifier, cancelled = False\<rparr>] else [])"
  using assms unfolding async_put_commit_eq
  by (auto simp: notify_sync_not_empty_def split: if_splits)

lemma async_put_wait_returned:
  "async_put_wait q x = (Returned u, effs, q1) \<Longrightarrow> async_put_commit q x = (Returned u, effs, q1)"
  by (auto simp: async_put_wait_def Let_def split: if_splits)

lemma async_put_effects:
  assumes "async_put q x running = (Returned u, effs, q1)"
  shows "effs = (if async_not_empty_waiting q \<noteq> 0 then [Notify AsyncNotEmpty] else []) \<and>
         pending q1 = pending q @
           (if sync_not_empty_waiting q \<noteq> 0
            then [\<lparr>notifier = SyncNotEmptyNotifier, cancelled = False\<rparr>] else [])"
proof -
  from assms have "\<exists>l q0. get_loop q running = Inr (l, q0) \<and>
      async_put_commit q0 x = (Returned u, effs, q1)"
    by (auto simp: async_put_def check_closing_def
        split: if_splits sum.splits intro: async_put_wait_returned)
  then obtain l q0 where gl: "get_loop q running = Inr (l, q0)"
    and c: "async_put_commit q0 x = (Returned u, effs, q1)" by blast
  from get_loop_Inr[OF gl] async_put_commit_effects[OF c] show ?thesis by simp
qed

lemma async_put_wake_effects:
  assumes "async_put_wake q x = (Returned u, effs, q1)"
  shows "effs = (if async_not_empty_waiting q \<noteq> 0 then [Notify AsyncNotEmpty] else []) \<and>
         pending q1 = pending q @
           (if sync_not_empty_waiting q \<noteq> 0
            then [\<lparr>notifier = SyncNotEmptyNotifier, cancelled = False\<rparr>] else [])"
proof -
  from assms have "async_put_commit (q\<lparr>async_not_full_waiting := async_not_full_waiting q - 1\<rparr>) x
      = (Returned u, effs, q1)"
    unfolding async_put_wake_def by (rule async_put_wait_returned)
  from async_put_commit_effects[OF this] show ?thesis by simp
qed

lemma async_put_nowait_effects:
  assumes "async_put_nowait q x running = (Returned u, effs, q1)"
  shows "effs = [] \<and>
         pending q1 = pending q @
           (if async_not_empty_waiting q \<noteq> 0
            then [\<lparr>notifier = AsyncNotEmptyNotifier, cancelled = False\<rparr>] else []) @
           (if sync_not_empty_waiting q \<noteq> 0
            then [\<lparr>notifier = SyncNotEmptyNotifier, cancelled = False\<rparr>] else [])"
proof -
  from assms have nc: "\<not> closing q"
    by (auto simp: async_put_nowait_def check_closing_def)
  from assms nc obtain l q0 where gl: "get_loop q running = Inr (l, q0)"
    by (cases "get_loop q running") (auto simp: async_put_nowait_def check_closing_def)
  from assms[unfolded async_put_nowait_eq[OF nc gl]] show ?thesis
    by (auto split: if_splits)
qed

lemma async_get_commit_effects:
  assumes "async_get_commit q = (Returned y, effs, q1)"
  shows "effs = (if async_not_full_waiting q \<noteq> 0 then [Notify AsyncNotFull] else []) \<and>
         pending q1 = pending q @
           (if sync_not_full_waiting q \<noteq> 0
            then [\<lparr>notifier = SyncNotFullNotifier, cancelled = False\<rparr>] else [])"
proof (cases "q_get q")
  case (Inl e)
  then show ?thesis using assms by (simp add: async_get_commit_def)
next
  case (Inr p)
  then obtain z q' where g: "q_get q = Inr (z, q')" by (cases p) auto
  from assms q_get_frame(11)[OF g] show ?thesis
    unfolding async_get_commit_eq[OF g]
    by (auto simp: notify_sync_not_full_def split: if_splits)
qed

lemma async_get_wait_returned:
  "async_get_wait q = (Returned y, effs, q1) \<Longrightarrow> async_get_commit q = (Returned y, effs, q1)"
  by (auto simp: async_get_wait_def Let_def split: if_splits)

lemma async_get_effects:
  assumes "async_get q running = (Returned y, effs, q1)"
  shows "effs = (if async_not_full_waiting q \<noteq> 0 then [Notify AsyncNotFull] else []) \<and>
         pending q1 = pending q @
           (if sync_not_full_waiting q \<noteq> 0
            then [\<lparr>notifier = SyncNotFullNotifier, cancelled = False\<rparr>] else [])"
proof -
  from assms have "\<exists>l q0. get_loop q running = Inr (l, q0) \<and>
      async_get_commit q0 = (Returned y, effs, q1)"
    by (auto simp: async_get_def check_closing_def
        split: if_splits sum.splits intro: async_get_wait_returned)
  then obtain l q0 where gl: "get_loop q running = Inr (l, q0)"
    and c: "async_get_commit q0 = (Returned y, effs, q1)" by blast
  from get_loop_Inr[OF gl] async_get_commit_effects[OF c] show ?thesis by simp
qed

lemma async_get_wake_effects:
  assumes "async_get_wake q = (Returned y, effs, q1)"
  shows "effs = (if async_not_full_waiting q \<noteq> 0 then [Notify AsyncNotFull] else []) \<and>
         pending q1 = pending q @
           (if sync_not_full_waiting q \<noteq> 0
            then [\<lparr>notifier = SyncNotFullNotifier, cancelled = False\<rparr>] else [])"
proof -
  from assms have "async_get_commit (q\<lparr>async_not_empty_waiting := async_not_empty_waiting q - 1\<rparr>)
      = (Returned y, effs, q1)"
    unfolding async_get_wake_def by (rule async_get_wait_returned)
  from async_get_commit_effects[OF this] show ?thesis by simp
qed

lemma async_get_nowait_effects:
  assumes "async_get_nowait q running = (Returned y, effs, q1)"
  shows "effs = [] \<and>
         pending q1 = pending q @
           (if async_not_full_waiting q \<noteq> 0
            then [\<lparr>notifier = AsyncNotFullNotifier, cancelled = False\<rparr>] else []) @
           (if sync_not_full_waiting q \<noteq> 0
            then [\<lparr>notifier = SyncNotFullNotifier, cancelled = False\<rparr>] else [])"
proof -
  from assms have nc: "\<not> closing q" and ne: "items q \<noteq> []"
    by (auto simp: async_get_nowait_def check_closing_def qsize_def split: if_splits)
  from assms nc ne obtain l q0 where gl: "get_loop q running = Inr (l, q0)"
    by (cases "get_loop q running")
       (auto simp: async_get_nowait_def check_closing_def qsize_def)
  have "items q0 \<noteq> []" using get_loop_Inr[OF gl] ne by simp
  then obtain z q' where g: "q_get q0 = Inr (z, q')" using q_get_total by blast
  from assms[unfolded async_get_nowait_eq[OF nc ne gl g]] show ?thesis
    by (auto split: if_splits)
qed

text \<open>
  Claim C3, as amended. After a put (respectively get) that returns, every notification
  is gated by a waiter count. On the blocking facade the same-domain condition
  \<open>sync_not_empty\<close> (\<open>sync_not_full\<close>) is notified exactly when the thread-side waiter
  count is not zero, and a callback creating the task-side notification job is handed to
  the loop exactly when the task-side waiter count is not zero, a loop is bound and the
  loop takes the callback. On the suspending facade a job for the thread side is appended
  to the pending jobs exactly when the thread-side waiter count is not zero; the
  coroutine \<open>put\<close> (\<open>get\<close>) notifies the task-side condition exactly when the task-side
  waiter count is not zero, and \<open>put_nowait\<close> (\<open>get_nowait\<close>) appends a task-side job
  instead, under the same condition.
\<close>

theorem notifications_follow_the_waiter_counts:
  "(sync_put (q :: 'a::linorder queue) x block timeout t0 now tmax acc = (Returned u, effs, q1) \<or>
    sync_put_wake q x endtime now tmax acc = (Returned u, effs, q1) \<or>
    sync_put_nowait q x acc = (Returned u, effs, q1) \<longrightarrow>
      effs = (if sync_not_empty_waiting q \<noteq> 0 then [Notify SyncNotEmpty] else []) @
             (if async_not_empty_waiting q \<noteq> 0 \<and> loop q \<noteq> None \<and> acc
              then [CallSoonThreadsafe MakeAsyncNotEmptyNotifier] else []) \<and>
      pending q1 = pending q) \<and>
   (sync_get q block timeout t0 now tmax acc = (Returned y, effs, q1) \<or>
    sync_get_wake q endtime now tmax acc = (Returned y, effs, q1) \<or>
    sync_get_nowait q acc = (Returned y, effs, q1) \<longrightarrow>
      effs = (if sync_not_full_waiting q \<noteq> 0 then [Notify SyncNotFull] else []) @
             (if async_not_full_waiting q \<noteq> 0 \<and> loop q \<noteq> None \<and> acc
              then [CallSoonThreadsafe MakeAsyncNotFullNotifier] else []) \<and>
      pending q1 = pending q) \<and>
   (async_put q x running = (Returned u, effs, q1) \<or>
    async_put_wake q x = (Returned u, effs, q1) \<longrightarrow>
      effs = (if async_not_empty_waiting q \<noteq> 0 then [Notify AsyncNotEmpty] else []) \<and>
      pending q1 = pending q @
        (if sync_not_empty_waiting q \<noteq> 0
         then [\<lparr>notifier = SyncNotEmptyNotifier, cancelled = False\<rparr>] else [])) \<and>
   (async_get q running = (Returned y, effs, q1) \<or>
    async_get_wake q = (Returned y, effs, q1) \<longrightarrow>
      effs = (if async_not_full_waiting q \<noteq> 0 then [Notify AsyncNotFull] else []) \<and>
      pending q1 = pending q @
        (if sync_not_full_waiting q \<noteq> 0
         then [\<lparr>notifier = SyncNotFullNotifier, cancelled = False\<rparr>] else [])) \<and>
   (async_put_nowait q x running = (Returned u, effs, q1) \<longrightarrow>
      effs = [] \<and>
      pending q1 = pending q @
        (if async_not_empty_waiting q \<noteq> 0
         then [\<lparr>notifier = AsyncNotEmptyNotifier, cancelled = False\<rparr>] else []) @
        (if sync_not_empty_waiting q \<noteq> 0
         then [\<lparr>notifier = SyncNotEmptyNotifier, cancelled = False\<rparr>] else [])) \<and>
   (async_get_nowait q running = (Returned y, effs, q1) \<longrightarrow>
      effs = [] \<and>
      pending q1 = pending q @
        (if async_not_full_waiting q \<noteq> 0
         then [\<lparr>notifier = AsyncNotFullNotifier, cancelled = False\<rparr>] else []) @
        (if sync_not_full_waiting q \<noteq> 0
         then [\<lparr>notifier = SyncNotFullNotifier, cancelled = False\<rparr>] else []))"
proof (intro conjI)
  show "sync_put q x block timeout t0 now tmax acc = (Returned u, effs, q1) \<or>
    sync_put_wake q x endtime now tmax acc = (Returned u, effs, q1) \<or>
    sync_put_nowait q x acc = (Returned u, effs, q1) \<longrightarrow>
      effs = (if sync_not_empty_waiting q \<noteq> 0 then [Notify SyncNotEmpty] else []) @
             (if async_not_empty_waiting q \<noteq> 0 \<and> loop q \<noteq> None \<and> acc
              then [CallSoonThreadsafe MakeAsyncNotEmptyNotifier] else []) \<and>
      pending q1 = pending q"
    unfolding sync_put_nowait_def
    using sync_put_effects sync_put_wake_effects by blast
  show "sync_get q block timeout t0 now tmax acc = (Returned y, effs, q1) \<or>
    sync_get_wake q endtime now tmax acc = (Returned y, effs, q1) \<or>
    sync_get_nowait q acc = (Returned y, effs, q1) \<longrightarrow>
      effs = (if sync_not_full_waiting q \<noteq> 0 then [Notify SyncNotFull] else []) @
             (if async_not_full_waiting q \<noteq> 0 \<and> loop q \<noteq> None \<and> acc
              then [CallSoonThreadsafe MakeAsyncNotFullNotifier] else []) \<and>
      pending q1 = pending q"
    unfolding sync_get_nowait_def
    using sync_get_effects sync_get_wake_effects by blast
  show "async_put q x running = (Returned u, effs, q1) \<or>
    async_put_wake q x = (Returned u, effs, q1) \<longrightarrow>
      effs = (if async_not_empty_waiting q \<noteq> 0 then [Notify AsyncNotEmpty] else []) \<and>
      pending q1 = pending q @
        (if sync_not_empty_waiting q \<noteq> 0
         then [\<lparr>notifier = SyncNotEmptyNotifier, cancelled = False\<rparr>] else [])"
    using async_put_effects async_put_wake_effects by blast
  show "async_get q running = (Returned y, effs, q1) \<or>
    async_get_wake q = (Returned y, effs, q1) \<longrightarrow>
      effs = (if async_not_full_waiting q \<noteq> 0 then [Notify AsyncNotFull] else []) \<and>
      pending q1 = pending q @
        (if sync_not_full_waiting q \<noteq> 0
         then [\<lparr>notifier = SyncNotFullNotifier, cancelled = False\<rparr>] else [])"
    using async_get_effects async_get_wake_effects by blast
  show "async_put_nowait q x running = (Returned u, effs, q1) \<longrightarrow>
      effs = [] \<and>
      pending q1 = pending q @
        (if async_not_empty_waiting q \<noteq> 0
         then [\<lparr>notifier = AsyncNotEmptyNotifier, cancelled = False\<rparr>] else []) @
        (if sync_not_empty_waiting q \<noteq> 0
         then [\<lparr>notifier = SyncNotEmptyNotifier, cancelled = False\<rparr>] else [])"
    using async_put_nowait_effects by blast
  show "async_get_nowait q running = (Returned y, effs, q1) \<longrightarrow>
      effs = [] \<and>
      pending q1 = pending q @
        (if async_not_full_waiting q \<noteq> 0
         then [\<lparr>notifier = AsyncNotFullNotifier, cancelled = False\<rparr>] else []) @
        (if sync_not_full_waiting q \<noteq> 0
         then [\<lparr>notifier = SyncNotFullNotifier, cancelled = False\<rparr>] else [])"
    using async_get_nowait_effects by blast
qed

theorem notifications_follow_the_waiter_counts_witness:
  "fst (snd (sync_put_nowait
       (snd (snd (sync_get (init Fifo 0 None :: nat queue) True None 0 0 9223372036 True))) 1 True))
     = [Notify SyncNotEmpty] \<and>
   pending (snd (snd (async_put_nowait
       (snd (snd (sync_get (init Fifo 0 None :: nat queue) True None 0 0 9223372036 True))) 1 (Some 0))))
     = [\<lparr>notifier = SyncNotEmptyNotifier, cancelled = False\<rparr>]"
proof -
  let ?q = "snd (snd (sync_get (init Fifo 0 None :: nat queue) True None 0 0 9223372036 True))"
  have w: "sync_not_empty_waiting ?q \<noteq> 0" "async_not_empty_waiting ?q = 0" "pending ?q = []"
    by code_simp+
  have s: "sync_put_nowait ?q 1 True
     = (Returned (), fst (snd (sync_put_nowait ?q 1 True)), snd (snd (sync_put_nowait ?q 1 True)))"
    by code_simp
  have a: "async_put_nowait ?q 1 (Some 0)
     = (Returned (), fst (snd (async_put_nowait ?q 1 (Some 0))),
        snd (snd (async_put_nowait ?q 1 (Some 0))))"
    by code_simp
  from notifications_follow_the_waiter_counts
         [where q = ?q and x = 1 and acc = True and u = "()"
            and effs = "fst (snd (sync_put_nowait ?q 1 True))"
            and ?q1.0 = "snd (snd (sync_put_nowait ?q 1 True))"] s w
  have 1: "fst (snd (sync_put_nowait ?q 1 True)) = [Notify SyncNotEmpty]" by simp
  from notifications_follow_the_waiter_counts
         [where q = ?q and x = 1 and running = "Some 0" and u = "()"
            and effs = "fst (snd (async_put_nowait ?q 1 (Some 0)))"
            and ?q1.0 = "snd (snd (async_put_nowait ?q 1 (Some 0)))"] a w
  have 2: "pending (snd (snd (async_put_nowait ?q 1 (Some 0))))
     = [\<lparr>notifier = SyncNotEmptyNotifier, cancelled = False\<rparr>]" by simp
  from 1 2 show ?thesis by blast
qed

text \<open>
  The claim as worded has the same-domain condition notified whatever the waiter counts.
  On a new queue a put returns and notifies nothing; with one thread waiting in \<open>get\<close>
  the same put notifies \<open>sync_not_empty\<close>.
\<close>

theorem same_domain_notify_counterexample:
  "fst (sync_put_nowait (init Fifo 0 None :: nat queue) 1 True) = Returned () \<and>
   fst (snd (sync_put_nowait (init Fifo 0 None :: nat queue) 1 True)) = [] \<and>
   sync_not_empty_waiting
     (snd (snd (sync_get (init Fifo 0 None :: nat queue) True None 0 0 9223372036 True))) = 1 \<and>
   fst (sync_put_nowait
     (snd (snd (sync_get (init Fifo 0 None :: nat queue) True None 0 0 9223372036 True))) 1 True)
     = Returned () \<and>
   fst (snd (sync_put_nowait
     (snd (snd (sync_get (init Fifo 0 None :: nat queue) True None 0 0 9223372036 True))) 1 True))
     = [Notify SyncNotEmpty]"
  by code_simp

end
